theory Spec2Isabelle
  imports Main
begin

section \<open>The memory cache helper\<close>

text \<open>
  The repository is one TypeScript class, in three near-identical variants, that wraps a
  \<^verbatim>\<open>NodeCache\<close> instance: every key and every value is passed through
  \<^verbatim>\<open>JSON.stringify\<close> before it reaches the store and through \<^verbatim>\<open>JSON.parse\<close> when
  it comes back.  The variant with the \<^verbatim>\<open>exists\<close> method is the reference one; a second
  variant differs from it in the body of \<^verbatim>\<open>unstringify\<close>, which calls itself, and has no
  \<^verbatim>\<open>exists\<close>; the third calls \<^verbatim>\<open>JSON.parse\<close> in place and forwards no events of
  the store (it is not modelled separately).

  The class rests on two things it does not define: the JSON built-ins of the language and
  the store of the node-cache package.  Both are modelled here as far as the class uses
  them, the first after the ECMAScript definition of \<^verbatim>\<open>JSON.stringify\<close> and
  \<^verbatim>\<open>JSON.parse\<close>, the second after the methods of \<^verbatim>\<open>NodeCache\<close> that the class
  calls (\<^verbatim>\<open>set\<close>, \<^verbatim>\<open>ttl\<close>, \<^verbatim>\<open>get\<close>, \<^verbatim>\<open>mget\<close>, \<^verbatim>\<open>del\<close>,
  \<^verbatim>\<open>keys\<close>, \<^verbatim>\<open>flushAll\<close>) with its default options.
\<close>

subsection \<open>Errors\<close>

text \<open>
  \<open>TypeError\<close> and \<open>SyntaxError\<close> are thrown by the JSON built-ins, \<open>EKEYTYPE\<close> by the
  store when a key is neither a string nor a number, and \<open>KeyNotFound\<close> is the class's own
  \<^verbatim>\<open>new Error('Key not found')\<close>.  \<open>Unmodelled\<close> is not an error of the program: the
  parser returns it for JSON text whose value lies outside the value type below (a number
  with a fraction or an exponent, a number beyond the safe integers, an escape
  \<^verbatim>\<open>\uXXXX\<close> above \<open>0xFF\<close>).
\<close>

datatype error = TypeError | SyntaxError | KeyNotFound | EKEYTYPE | Unmodelled

subsection \<open>Values\<close>

text \<open>
  The values a caller can pass as key or value (\<^verbatim>\<open>any\<close>).  Numbers are the integers
  (non-integral numbers are outside the model), \<open>JNaN\<close> stands for the non-finite numbers,
  strings are sequences of code units below \<open>0x100\<close>.  An object is the list of its own
  properties in enumeration order; the model keeps insertion order and does not move
  integer-like names to the front.
\<close>

datatype jsval =
    JUndefined
  | JNull
  | JBool bool
  | JNum int
  | JNaN
  | JBigInt int
  | JStr string
  | JArr "jsval list"
  | JObj "(string \<times> jsval) list"

text \<open>
  The values JSON represents faithfully: no \<^verbatim>\<open>undefined\<close>, no non-finite number and no
  \<^verbatim>\<open>BigInt\<close> at any depth, numbers within the safe integers, and objects whose property
  names are pairwise different (as they are in every object of the language).
\<close>

fun json_value :: "jsval \<Rightarrow> bool" where
  "json_value JUndefined = False"
| "json_value JNull = True"
| "json_value (JBool b) = True"
| "json_value (JNum i) = (\<bar>i\<bar> \<le> 9007199254740991)"
| "json_value JNaN = False"
| "json_value (JBigInt i) = False"
| "json_value (JStr s) = True"
| "json_value (JArr xs) = (\<forall>x \<in> set xs. json_value x)"
| "json_value (JObj ps) = (distinct (map fst ps) \<and> (\<forall>p \<in> set ps. json_value (snd p)))"


subsection \<open>\<^verbatim>\<open>JSON.stringify\<close>\<close>

text \<open>
  \<^verbatim>\<open>QuoteJSONString\<close>: the two-character escapes, \<^verbatim>\<open>\u00xx\<close> in lower-case hexadecimal
  for the other control characters, every other code unit unchanged.
\<close>

definition hex_digit :: "nat \<Rightarrow> char" where
  "hex_digit n = ''0123456789abcdef'' ! n"

definition quote_char :: "char \<Rightarrow> string" where
  "quote_char c =
     (if c = CHR 0x08 then [CHR 0x5C, CHR ''b'']
      else if c = CHR 0x09 then [CHR 0x5C, CHR ''t'']
      else if c = CHR 0x0A then [CHR 0x5C, CHR ''n'']
      else if c = CHR 0x0C then [CHR 0x5C, CHR ''f'']
      else if c = CHR 0x0D then [CHR 0x5C, CHR ''r'']
      else if c = CHR 0x22 then [CHR 0x5C, CHR 0x22]
      else if c = CHR 0x5C then [CHR 0x5C, CHR 0x5C]
      else if of_char c < (0x20 :: nat)
        then [CHR 0x5C, CHR ''u'', CHR ''0'', CHR ''0'',
              hex_digit (of_char c div 16), hex_digit (of_char c mod 16)]
      else [c])"

definition QuoteJSONString :: "string \<Rightarrow> string" where
  "QuoteJSONString s = CHR 0x22 # concat (map quote_char s) @ [CHR 0x22]"

text \<open>
  \<^verbatim>\<open>Number::toString\<close> on an integer: its decimal digits, with a sign when negative
  (as the language writes every safe integer).
\<close>

fun digits :: "nat \<Rightarrow> string" where
  "digits n = (if n < 10 then [char_of (48 + n)]
               else digits (n div 10) @ [char_of (48 + n mod 10)])"

declare digits.simps [simp del]

definition Number_toString :: "int \<Rightarrow> string" where
  "Number_toString i = (if i < 0 then CHR ''-'' # digits (nat (- i)) else digits (nat i))"

fun join_comma :: "string list \<Rightarrow> string" where
  "join_comma [] = []"
| "join_comma [x] = x"
| "join_comma (x # y # ys) = x @ CHR '','' # join_comma (y # ys)"

text \<open>
  \<^verbatim>\<open>SerializeJSONProperty\<close>, \<^verbatim>\<open>SerializeJSONArray\<close> and \<^verbatim>\<open>SerializeJSONObject\<close>
  without replacer and indentation.  The result \<open>Inr None\<close> is the value
  \<^verbatim>\<open>undefined\<close>: no text is produced.  An element of an array that has no text is written
  \<^verbatim>\<open>null\<close>; a property of an object that has no text is left out.  A \<^verbatim>\<open>BigInt\<close>
  throws.
\<close>

fun SerializeJSONProperty :: "jsval \<Rightarrow> error + string option"
  and SerializeJSONArray :: "jsval list \<Rightarrow> error + string list"
  and SerializeJSONObject :: "(string \<times> jsval) list \<Rightarrow> error + string list"
where
  "SerializeJSONProperty JUndefined = Inr None"
| "SerializeJSONProperty JNull = Inr (Some ''null'')"
| "SerializeJSONProperty (JBool b) = Inr (Some (if b then ''true'' else ''false''))"
| "SerializeJSONProperty (JNum i) = Inr (Some (Number_toString i))"
| "SerializeJSONProperty JNaN = Inr (Some ''null'')"
| "SerializeJSONProperty (JBigInt i) = Inl TypeError"
| "SerializeJSONProperty (JStr s) = Inr (Some (QuoteJSONString s))"
| "SerializeJSONProperty (JArr xs) =
     (case SerializeJSONArray xs of
        Inl e \<Rightarrow> Inl e
      | Inr partial \<Rightarrow> Inr (Some (CHR ''['' # join_comma partial @ [CHR '']''])))"
| "SerializeJSONProperty (JObj ps) =
     (case SerializeJSONObject ps of
        Inl e \<Rightarrow> Inl e
      | Inr partial \<Rightarrow> Inr (Some (CHR ''{'' # join_comma partial @ [CHR ''}''])))"
| "SerializeJSONArray [] = Inr []"
| "SerializeJSONArray (x # xs) =
     (case SerializeJSONProperty x of
        Inl e \<Rightarrow> Inl e
      | Inr r \<Rightarrow>
          (case SerializeJSONArray xs of
             Inl e \<Rightarrow> Inl e
           | Inr partial \<Rightarrow> Inr ((case r of None \<Rightarrow> ''null'' | Some t \<Rightarrow> t) # partial)))"
| "SerializeJSONObject [] = Inr []"
| "SerializeJSONObject ((k, x) # ps) =
     (case SerializeJSONProperty x of
        Inl e \<Rightarrow> Inl e
      | Inr r \<Rightarrow>
          (case SerializeJSONObject ps of
             Inl e \<Rightarrow> Inl e
           | Inr partial \<Rightarrow>
               Inr ((case r of None \<Rightarrow> [] | Some t \<Rightarrow> [QuoteJSONString k @ CHR '':'' # t])
                    @ partial)))"

text \<open>
  \<^verbatim>\<open>private stringify (str: any): string { return JSON.stringify(str); }\<close>
\<close>

definition stringify :: "jsval \<Rightarrow> error + string option" where
  "stringify str = SerializeJSONProperty str"

subsection \<open>\<^verbatim>\<open>JSON.parse\<close>\<close>

definition is_ws :: "char \<Rightarrow> bool" where
  "is_ws c = (c = CHR '' '' \<or> c = CHR 0x09 \<or> c = CHR 0x0A \<or> c = CHR 0x0D)"

definition skip_ws :: "string \<Rightarrow> string" where
  "skip_ws s = dropWhile is_ws s"

definition is_digit :: "char \<Rightarrow> bool" where
  "is_digit c = (48 \<le> (of_char c :: nat) \<and> (of_char c :: nat) \<le> 57)"

definition digit_val :: "char \<Rightarrow> nat" where
  "digit_val c = of_char c - 48"

definition hex_val :: "char \<Rightarrow> nat option" where
  "hex_val c =
     (let n = (of_char c :: nat) in
      if 48 \<le> n \<and> n \<le> 57 then Some (n - 48)
      else if 97 \<le> n \<and> n \<le> 102 then Some (n - 87)
      else if 65 \<le> n \<and> n \<le> 70 then Some (n - 55)
      else None)"

definition hex4 :: "char \<Rightarrow> char \<Rightarrow> char \<Rightarrow> char \<Rightarrow> nat option" where
  "hex4 a b c d =
     (case (hex_val a, hex_val b, hex_val c, hex_val d) of
        (Some x, Some y, Some z, Some w) \<Rightarrow> Some (((x * 16 + y) * 16 + z) * 16 + w)
      | _ \<Rightarrow> None)"

definition unescape :: "char \<Rightarrow> char option" where
  "unescape e =
     (if e = CHR 0x22 then Some (CHR 0x22)
      else if e = CHR 0x5C then Some (CHR 0x5C)
      else if e = CHR ''/'' then Some (CHR ''/'')
      else if e = CHR ''b'' then Some (CHR 0x08)
      else if e = CHR ''f'' then Some (CHR 0x0C)
      else if e = CHR ''n'' then Some (CHR 0x0A)
      else if e = CHR ''r'' then Some (CHR 0x0D)
      else if e = CHR ''t'' then Some (CHR 0x09)
      else None)"

definition cons_char :: "char \<Rightarrow> error + string \<times> string \<Rightarrow> error + string \<times> string" where
  "cons_char c r = (case r of Inl e \<Rightarrow> Inl e | Inr (str, rest) \<Rightarrow> Inr (c # str, rest))"

text \<open>
  The characters of a string literal after its opening quote, up to the closing one; the
  result is the string and the text that follows it.
\<close>

fun parse_chars :: "string \<Rightarrow> error + string \<times> string" where
  "parse_chars [] = Inl SyntaxError"
| "parse_chars (c # r) =
     (if c = CHR 0x22 then Inr ([], r)
      else if c = CHR 0x5C then
        (case r of
           [] \<Rightarrow> Inl SyntaxError
         | e # r' \<Rightarrow>
             if e = CHR ''u'' then
               (case r' of
                  h1 # h2 # h3 # h4 # r'' \<Rightarrow>
                    (case hex4 h1 h2 h3 h4 of
                       None \<Rightarrow> Inl SyntaxError
                     | Some n \<Rightarrow>
                         if n < 256 then cons_char (char_of n) (parse_chars r'')
                         else Inl Unmodelled)
                | _ \<Rightarrow> Inl SyntaxError)
             else
               (case unescape e of
                  None \<Rightarrow> Inl SyntaxError
                | Some ch \<Rightarrow> cons_char ch (parse_chars r')))
      else if of_char c < (0x20 :: nat) then Inl SyntaxError
      else cons_char c (parse_chars r))"

definition parse_nat :: "string \<Rightarrow> nat \<times> string" where
  "parse_nat s =
     (foldl (\<lambda>a c. 10 * a + digit_val c) 0 (takeWhile is_digit s), dropWhile is_digit s)"

text \<open>
  A number: an optional minus sign, then \<^verbatim>\<open>0\<close> or a digit sequence without leading
  zero.  A fraction, an exponent, \<^verbatim>\<open>-0\<close> and an integer that is not safe are outside
  the model.
\<close>

definition parse_number :: "string \<Rightarrow> error + jsval \<times> string" where
  "parse_number s =
     (let neg = (s \<noteq> [] \<and> hd s = CHR ''-'');
          body = (if neg then tl s else s)
      in case body of
           [] \<Rightarrow> Inl SyntaxError
         | d # r \<Rightarrow>
             if \<not> is_digit d then Inl SyntaxError
             else
               (let (n, rest) = (if d = CHR ''0'' then (0, r) else parse_nat body) in
                if rest \<noteq> [] \<and> (hd rest = CHR ''.'' \<or> hd rest = CHR ''e'' \<or> hd rest = CHR ''E'')
                  then Inl Unmodelled
                else if (neg \<and> n = 0) \<or> n > 9007199254740991 then Inl Unmodelled
                else Inr (JNum (if neg then - int n else int n), rest)))"

text \<open>
  Assignment to a property of an object (\<^verbatim>\<open>o[k] = v\<close>): an existing property keeps its
  place, a new one is added at the end.  \<^verbatim>\<open>JSON.parse\<close> builds an object this way, so
  that of two members with one name the later value stands.
\<close>

fun obj_put :: "(string \<times> 'a) list \<Rightarrow> string \<Rightarrow> 'a \<Rightarrow> (string \<times> 'a) list" where
  "obj_put [] k v = [(k, v)]"
| "obj_put ((k', v') # ps) k v = (if k' = k then (k, v) # ps else (k', v') # obj_put ps k v)"

definition build_object :: "(string \<times> jsval) list \<Rightarrow> (string \<times> jsval) list" where
  "build_object ms = foldl (\<lambda>acc (k, v). obj_put acc k v) [] ms"

lemma cons_char_Inr:
  "cons_char c r = Inr (str, rest) \<longleftrightarrow> (\<exists>str'. r = Inr (str', rest) \<and> str = c # str')"
  by (auto simp: cons_char_def split: sum.splits)

lemma parse_chars_length:
  "parse_chars s = Inr (str, rest) \<Longrightarrow> length rest < length s"
proof (induction "length s" arbitrary: s str rest rule: less_induct)
  case less
  show ?case
  proof (cases s)
    case Nil
    with less.prems show ?thesis by simp
  next
    case (Cons c r)
    show ?thesis
    proof (cases "c = CHR 0x22")
      case True
      with less.prems Cons show ?thesis by simp
    next
      case nq: False
      show ?thesis
      proof (cases "c = CHR 0x5C")
        case False
        with nq less.prems Cons obtain str' where "parse_chars r = Inr (str', rest)"
          by (auto simp: cons_char_Inr split: if_splits)
        from less.hyps[OF _ this] Cons show ?thesis by simp
      next
        case bs: True
        show ?thesis
        proof (cases r)
          case Nil
          with bs nq less.prems Cons show ?thesis by simp
        next
          case r: (Cons e r')
          show ?thesis
          proof (cases "e = CHR ''u''")
            case False
            with bs nq less.prems Cons r obtain str' where "parse_chars r' = Inr (str', rest)"
              by (auto simp: cons_char_Inr split: option.splits)
            from less.hyps[OF _ this] Cons r show ?thesis by simp
          next
            case True
            with bs nq less.prems Cons r obtain h1 h2 h3 h4 r'' str'
              where "r' = h1 # h2 # h3 # h4 # r''" "parse_chars r'' = Inr (str', rest)"
              by (auto simp: cons_char_Inr split: option.splits list.splits if_splits)
            from less.hyps[OF _ this(2)] this(1) Cons r show ?thesis by simp
          qed
        qed
      qed
    qed
  qed
qed

lemma skip_ws_length: "length (skip_ws s) \<le> length s"
  by (simp add: skip_ws_def length_dropWhile_le)

lemma skip_ws_tail:
  assumes "c # r = skip_ws s"
  shows "length r < length s"
proof -
  have "length (c # r) \<le> length s"
    unfolding assms by (rule skip_ws_length)
  then show ?thesis by simp
qed

text \<open>
  The grammar of JSON values by recursive descent.  \<open>parse_elements\<close> reads the elements
  of an array up to its closing bracket, \<open>parse_members\<close> the members of an object up to
  its closing brace.  The two tests \<open>length r' < length s\<close> and \<open>length r4 < length s\<close>
  bound the recursion for the termination proof; they always succeed (lemma
  \<open>parse_lengths\<close>), so that the functions satisfy the same equations without them (lemmas
  \<open>parse_elements_unguarded\<close> and \<open>parse_members_unguarded\<close>).
\<close>

function parse_value :: "string \<Rightarrow> error + jsval \<times> string"
  and parse_elements :: "string \<Rightarrow> error + jsval list \<times> string"
  and parse_members :: "string \<Rightarrow> error + (string \<times> jsval) list \<times> string"
where
  "parse_value s =
     (let t = skip_ws s in
      if take 4 t = ''null'' then Inr (JNull, drop 4 t)
      else if take 4 t = ''true'' then Inr (JBool True, drop 4 t)
      else if take 5 t = ''false'' then Inr (JBool False, drop 5 t)
      else case t of
        [] \<Rightarrow> Inl SyntaxError
      | c # r \<Rightarrow>
          if c = CHR 0x22 then
            (case parse_chars r of
               Inl e \<Rightarrow> Inl e
             | Inr (str, r') \<Rightarrow> Inr (JStr str, r'))
          else if c = CHR ''['' then
            (case skip_ws r of
               [] \<Rightarrow> Inl SyntaxError
             | c' # r' \<Rightarrow>
                 if c' = CHR '']'' then Inr (JArr [], r')
                 else (case parse_elements r of
                         Inl e \<Rightarrow> Inl e
                       | Inr (vs, r'') \<Rightarrow> Inr (JArr vs, r'')))
          else if c = CHR ''{'' then
            (case skip_ws r of
               [] \<Rightarrow> Inl SyntaxError
             | c' # r' \<Rightarrow>
                 if c' = CHR ''}'' then Inr (JObj [], r')
                 else (case parse_members r of
                         Inl e \<Rightarrow> Inl e
                       | Inr (ms, r'') \<Rightarrow> Inr (JObj (build_object ms), r'')))
          else parse_number t)"
| "parse_elements s =
     (case parse_value s of
        Inl e \<Rightarrow> Inl e
      | Inr (v, r) \<Rightarrow>
          (case skip_ws r of
             [] \<Rightarrow> Inl SyntaxError
           | c # r' \<Rightarrow>
               if c = CHR '','' then
                 (if length r' < length s then
                    (case parse_elements r' of
                       Inl e \<Rightarrow> Inl e
                     | Inr (vs, r'') \<Rightarrow> Inr (v # vs, r''))
                  else Inl SyntaxError)
               else if c = CHR '']'' then Inr ([v], r')
               else Inl SyntaxError))"
| "parse_members s =
     (case skip_ws s of
        [] \<Rightarrow> Inl SyntaxError
      | q # r0 \<Rightarrow>
          if q \<noteq> CHR 0x22 then Inl SyntaxError
          else
            (case parse_chars r0 of
               Inl e \<Rightarrow> Inl e
             | Inr (k, r1) \<Rightarrow>
                 (case skip_ws r1 of
                    [] \<Rightarrow> Inl SyntaxError
                  | c # r2 \<Rightarrow>
                      if c \<noteq> CHR '':'' then Inl SyntaxError
                      else
                        (case parse_value r2 of
                           Inl e \<Rightarrow> Inl e
                         | Inr (v, r3) \<Rightarrow>
                             (case skip_ws r3 of
                                [] \<Rightarrow> Inl SyntaxError
                              | c' # r4 \<Rightarrow>
                                  if c' = CHR '','' then
                                    (if length r4 < length s then
                                       (case parse_members r4 of
                                          Inl e \<Rightarrow> Inl e
                                        | Inr (ms, r5) \<Rightarrow> Inr ((k, v) # ms, r5))
                                     else Inl SyntaxError)
                                  else if c' = CHR ''}'' then Inr ([(k, v)], r4)
                                  else Inl SyntaxError)))))"
  by pat_completeness auto
termination
  apply (relation "measures [\<lambda>x. case x of Inl s \<Rightarrow> length s | Inr (Inl s) \<Rightarrow> length s | Inr (Inr s) \<Rightarrow> length s,
                           \<lambda>x. case x of Inl s \<Rightarrow> 0 | Inr _ \<Rightarrow> 1]")
        apply simp
  subgoal for s t c r c' r' using skip_ws_tail[of c r s] by simp
  subgoal for s t c r c' r' using skip_ws_tail[of c r s] by simp
     apply simp
    apply simp
  subgoal for s q r0 x k r1 c r2
    using skip_ws_tail[of q r0 s] skip_ws_tail[of c r2 r1] parse_chars_length[of r0 k r1] by simp
  apply simp
  done

declare parse_value.simps [simp del] parse_elements.simps [simp del] parse_members.simps [simp del]

text \<open>\<^verbatim>\<open>JSON.parse(text)\<close>: one value, with nothing but white space after it.\<close>

definition JSON_parse :: "string \<Rightarrow> error + jsval" where
  "JSON_parse text =
     (case parse_value text of
        Inl e \<Rightarrow> Inl e
      | Inr (v, rest) \<Rightarrow> if skip_ws rest = [] then Inr v else Inl SyntaxError)"

text \<open>
  The argument of \<^verbatim>\<open>JSON.parse\<close> is converted to a string first; \<^verbatim>\<open>undefined\<close>
  becomes the text \<^verbatim>\<open>undefined\<close>, which is not JSON.
\<close>

definition ToString :: "string option \<Rightarrow> string" where
  "ToString str = (case str of None \<Rightarrow> ''undefined'' | Some s \<Rightarrow> s)"

text \<open>
  \<^verbatim>\<open>private unstringify<T> (str: any): T { return JSON.parse(str); }\<close>

  A decoder returns \<open>None\<close> when it does not return at all; this one always returns.
\<close>

type_synonym decoder = "string option \<Rightarrow> (error + jsval) option"

definition unstringify :: decoder where
  "unstringify str = Some (JSON_parse (ToString str))"

section \<open>The store\<close>

subsection \<open>State and effects\<close>

text \<open>
  An entry of the store is the object \<^verbatim>\<open>{ t: livetime, v: value }\<close> that node-cache
  keeps under a key: \<open>entry_t\<close> is the time of expiry in milliseconds (\<open>0\<close>: never),
  \<open>entry_v\<close> the stored value, which the class always sets to the result of
  \<^verbatim>\<open>stringify\<close>: a string, or \<open>None\<close> for \<^verbatim>\<open>undefined\<close>.
\<close>

record entry =
  entry_t :: int
  entry_v :: "string option"

text \<open>The events the class emits to its listeners.\<close>

datatype event = EvSet jsval jsval | EvExpired jsval jsval | EvDel jsval jsval | EvFlush

text \<open>
  The state of one cache object: the constructor's two parameters, the \<^verbatim>\<open>data\<close>
  object of its \<^verbatim>\<open>NodeCache\<close> (the entries by key, as a list in enumeration order), the
  value of \<^verbatim>\<open>Date.now()\<close>, and the events emitted so far.  Listeners registered with
  \<^verbatim>\<open>on\<close> are not part of the model: an emitted event is recorded and the listener is
  taken to return.  Time does not pass during an operation, and the periodic check of
  node-cache (which runs between operations) is not modelled.
\<close>

record cache =
  m_ttl :: int
  m_checkPeriod :: int
  data :: "(string \<times> entry) list"
  clock :: int
  emitted :: "event list"

text \<open>
  An operation takes the state and either does not return (\<open>None\<close>) or ends in a new
  state, with a result (\<open>Inr\<close>) or a thrown error (\<open>Inl\<close>).
\<close>

type_synonym 'a io = "cache \<Rightarrow> ((error + 'a) \<times> cache) option"

definition return_io :: "'a \<Rightarrow> 'a io" where
  "return_io x = (\<lambda>s. Some (Inr x, s))"

definition throw_io :: "error \<Rightarrow> 'a io" where
  "throw_io e = (\<lambda>s. Some (Inl e, s))"

definition bind_io :: "'a io \<Rightarrow> ('a \<Rightarrow> 'b io) \<Rightarrow> 'b io" where
  "bind_io m f =
     (\<lambda>s. case m s of
            None \<Rightarrow> None
          | Some (Inl e, s') \<Rightarrow> Some (Inl e, s')
          | Some (Inr x, s') \<Rightarrow> f x s')"

text \<open>A computation without effect on the state: it returns or throws (\<open>lift_io\<close>), or may
  also not return (\<open>pure_io\<close>).\<close>

definition lift_io :: "error + 'a \<Rightarrow> 'a io" where
  "lift_io r = (\<lambda>s. Some (r, s))"

definition pure_io :: "(error + 'a) option \<Rightarrow> 'a io" where
  "pure_io r = (\<lambda>s. case r of None \<Rightarrow> None | Some x \<Rightarrow> Some (x, s))"

definition modify_data :: "(cache \<Rightarrow> (string \<times> entry) list) \<Rightarrow> unit io" where
  "modify_data f = (\<lambda>s. Some (Inr (), s\<lparr>data := f s\<rparr>))"

definition emit :: "event \<Rightarrow> unit io" where
  "emit ev = (\<lambda>s. Some (Inr (), s\<lparr>emitted := emitted s @ [ev]\<rparr>))"

text \<open>
  The listeners the constructor registers on the store, for \<^verbatim>\<open>set\<close>, \<^verbatim>\<open>expired\<close> and
  \<^verbatim>\<open>del\<close>:

  \<^verbatim>\<open>this.m_cache.on('set', (key, value) =>
      this.emit('set', this.unstringify(key), this.unstringify(value)));\<close>

  The store calls them synchronously from inside its own methods, so an error thrown while
  decoding leaves the method of the store that emitted the event.  The listener for
  \<^verbatim>\<open>flush\<close> emits \<^verbatim>\<open>flush\<close>; the one for \<^verbatim>\<open>error\<close> is never called by the
  methods modelled here.
\<close>

definition forward :: "decoder \<Rightarrow> (jsval \<Rightarrow> jsval \<Rightarrow> event) \<Rightarrow> string \<Rightarrow> string option \<Rightarrow> unit io" where
  "forward unstr ev key value =
     bind_io (pure_io (unstr (Some key))) (\<lambda>k.
     bind_io (pure_io (unstr value)) (\<lambda>v.
     emit (ev k v)))"

subsection \<open>The methods of \<^verbatim>\<open>NodeCache\<close>\<close>

text \<open>\<^verbatim>\<open>delete o[k]\<close>.\<close>

definition obj_delete :: "(string \<times> 'a) list \<Rightarrow> string \<Rightarrow> (string \<times> 'a) list" where
  "obj_delete ps k = filter (\<lambda>p. fst p \<noteq> k) ps"

text \<open>
  \<^verbatim>\<open>_wrap(value, ttl)\<close>: the time to live is in seconds; \<open>0\<close> means that the entry does
  not expire.
\<close>

definition NodeCache_wrap :: "cache \<Rightarrow> string option \<Rightarrow> int \<Rightarrow> entry" where
  "NodeCache_wrap s value ttl =
     \<lparr>entry_t = (if ttl = 0 then 0 else clock s + ttl * 1000), entry_v = value\<rparr>"

text \<open>
  \<^verbatim>\<open>del(keys)\<close>: for each key in turn, a key that is not a string throws; an existing
  entry is removed and the \<^verbatim>\<open>del\<close> event emitted with the key and the old value.  (The
  count of removed entries that the method returns is not used by the class.)
\<close>

definition NodeCache_del_key :: "decoder \<Rightarrow> string \<Rightarrow> unit io" where
  "NodeCache_del_key unstr key =
     (\<lambda>s. case map_of (data s) key of
            None \<Rightarrow> return_io () s
          | Some oldVal \<Rightarrow>
              bind_io (modify_data (\<lambda>s. obj_delete (data s) key))
                (\<lambda>_. forward unstr EvDel key (entry_v oldVal)) s)"

fun NodeCache_del :: "decoder \<Rightarrow> string option list \<Rightarrow> unit io" where
  "NodeCache_del unstr [] = return_io ()"
| "NodeCache_del unstr (key # keys) =
     (case key of
        None \<Rightarrow> throw_io EKEYTYPE
      | Some k \<Rightarrow> bind_io (NodeCache_del_key unstr k) (\<lambda>_. NodeCache_del unstr keys))"

text \<open>
  \<^verbatim>\<open>_check(key, data)\<close>: an entry whose time of expiry is not \<open>0\<close> and lies before now
  is deleted (\<^verbatim>\<open>deleteOnExpire\<close> is on by default) and the \<^verbatim>\<open>expired\<close> event emitted;
  the result tells whether the entry is still valid.
\<close>

definition expired :: "cache \<Rightarrow> entry \<Rightarrow> bool" where
  "expired s e = (entry_t e \<noteq> 0 \<and> entry_t e < clock s)"

definition NodeCache_check :: "decoder \<Rightarrow> string \<Rightarrow> entry \<Rightarrow> bool io" where
  "NodeCache_check unstr key e =
     (\<lambda>s. if expired s e then
            bind_io (NodeCache_del unstr [Some key]) (\<lambda>_.
            bind_io (forward unstr EvExpired key (entry_v e)) (\<lambda>_.
            return_io False)) s
          else return_io True s)"

text \<open>\<^verbatim>\<open>get(key)\<close>: the value of a valid entry, \<^verbatim>\<open>undefined\<close> otherwise.\<close>

definition NodeCache_get :: "decoder \<Rightarrow> string option \<Rightarrow> string option io" where
  "NodeCache_get unstr key =
     (case key of
        None \<Rightarrow> throw_io EKEYTYPE
      | Some k \<Rightarrow>
          (\<lambda>s. case map_of (data s) k of
                 None \<Rightarrow> return_io None s
               | Some e \<Rightarrow>
                   bind_io (NodeCache_check unstr k e)
                     (\<lambda>valid. return_io (if valid then entry_v e else None)) s))"

text \<open>\<^verbatim>\<open>mget(keys)\<close>: the object \<^verbatim>\<open>oRet\<close> with the values of the valid entries among
  the keys.\<close>

fun NodeCache_mget_loop ::
  "decoder \<Rightarrow> string option list \<Rightarrow> (string \<times> string option) list
     \<Rightarrow> (string \<times> string option) list io" where
  "NodeCache_mget_loop unstr [] oRet = return_io oRet"
| "NodeCache_mget_loop unstr (key # keys) oRet =
     (case key of
        None \<Rightarrow> throw_io EKEYTYPE
      | Some k \<Rightarrow>
          bind_io
            (\<lambda>s. case map_of (data s) k of
                   None \<Rightarrow> return_io oRet s
                 | Some e \<Rightarrow>
                     bind_io (NodeCache_check unstr k e)
                       (\<lambda>valid. return_io (if valid then obj_put oRet k (entry_v e) else oRet)) s)
            (NodeCache_mget_loop unstr keys))"

definition NodeCache_mget :: "decoder \<Rightarrow> string option list \<Rightarrow> (string \<times> string option) list io" where
  "NodeCache_mget unstr keys = NodeCache_mget_loop unstr keys []"

text \<open>
  \<^verbatim>\<open>set(key, value)\<close> without a time to live: the entry is written with the standard
  time to live (\<^verbatim>\<open>stdTTL\<close>, which the constructor sets to \<^verbatim>\<open>m_ttl\<close>), then the
  \<^verbatim>\<open>set\<close> event is emitted.
\<close>

definition NodeCache_set :: "decoder \<Rightarrow> string option \<Rightarrow> string option \<Rightarrow> unit io" where
  "NodeCache_set unstr key value =
     (case key of
        None \<Rightarrow> throw_io EKEYTYPE
      | Some k \<Rightarrow>
          bind_io (modify_data (\<lambda>s. obj_put (data s) k (NodeCache_wrap s value (m_ttl s))))
            (\<lambda>_. forward unstr EvSet k value))"

text \<open>
  \<^verbatim>\<open>ttl(key, ttl)\<close>: a time to live of \<open>0\<close> is replaced by the standard one
  (\<^verbatim>\<open>ttl or= @options.stdTTL\<close>); an empty or missing key gives \<^verbatim>\<open>false\<close>; a valid
  entry is rewritten with the new time to live, or deleted when that is negative.
\<close>

definition NodeCache_ttl :: "decoder \<Rightarrow> string option \<Rightarrow> int \<Rightarrow> bool io" where
  "NodeCache_ttl unstr key ttl =
     (\<lambda>s. let ttl' = (if ttl = 0 then m_ttl s else ttl) in
          case key of
            None \<Rightarrow> return_io False s
          | Some k \<Rightarrow>
              if k = [] then return_io False s
              else
                (case map_of (data s) k of
                   None \<Rightarrow> return_io False s
                 | Some e \<Rightarrow>
                     bind_io (NodeCache_check unstr k e) (\<lambda>valid.
                       if valid then
                         bind_io
                           (if ttl' \<ge> 0
                            then modify_data (\<lambda>s. obj_put (data s) k (NodeCache_wrap s (entry_v e) ttl'))
                            else NodeCache_del unstr [Some k])
                           (\<lambda>_. return_io True)
                       else return_io False) s))"

definition NodeCache_keys :: "cache \<Rightarrow> string list" where
  "NodeCache_keys s = map fst (data s)"

text \<open>\<^verbatim>\<open>flushAll()\<close>: the data is replaced by an empty object and \<^verbatim>\<open>flush\<close> emitted,
  which the class forwards as its own \<^verbatim>\<open>flush\<close> event.\<close>

definition NodeCache_flushAll :: "unit io" where
  "NodeCache_flushAll = bind_io (modify_data (\<lambda>s. [])) (\<lambda>_. emit EvFlush)"

section \<open>The class\<close>

text \<open>
  Every method is a function of the decoder, the one point in which the variants of the
  class differ.  The methods keep their names, but for \<^verbatim>\<open>set\<close> and \<^verbatim>\<open>list\<close>,
  which are \<open>set_entry\<close> and \<open>list_entries\<close> here.  \<^verbatim>\<open>keys.map(key => this.stringify(key))\<close> stops at the first key whose
  encoding throws.
\<close>

fun map_stringify :: "jsval list \<Rightarrow> error + string option list" where
  "map_stringify [] = Inr []"
| "map_stringify (key # keys) =
     (case stringify key of
        Inl e \<Rightarrow> Inl e
      | Inr k \<Rightarrow> (case map_stringify keys of Inl e \<Rightarrow> Inl e | Inr ks \<Rightarrow> Inr (k # ks)))"

fun map_unstringify :: "decoder \<Rightarrow> string list \<Rightarrow> (error + jsval list) option" where
  "map_unstringify unstr [] = Some (Inr [])"
| "map_unstringify unstr (key # keys) =
     (case unstr (Some key) of
        None \<Rightarrow> None
      | Some (Inl e) \<Rightarrow> Some (Inl e)
      | Some (Inr k) \<Rightarrow>
          (case map_unstringify unstr keys of
             None \<Rightarrow> None
           | Some (Inl e) \<Rightarrow> Some (Inl e)
           | Some (Inr ks) \<Rightarrow> Some (Inr (k # ks))))"

text \<open>\<^verbatim>\<open>!value\<close> for a value that is a string or \<^verbatim>\<open>undefined\<close>.\<close>

definition falsy :: "string option \<Rightarrow> bool" where
  "falsy value = (value = None \<or> value = Some [])"

text \<open>
  \<^verbatim>\<open>public async del (key: any): Promise<void> {
      this.m_cache.del(this.stringify(key)); }\<close>
\<close>

definition del :: "decoder \<Rightarrow> jsval \<Rightarrow> unit io" where
  "del unstr key = bind_io (lift_io (stringify key)) (\<lambda>k. NodeCache_del unstr [k])"

text \<open>
  \<^verbatim>\<open>public async get<T> (key: any): Promise<T> {
      const set_key = this.stringify(key);
      const value = this.m_cache.get(set_key);
      if (!value) { throw new Error('Key not found'); }
      return this.unstringify(value as string); }\<close>
\<close>

definition get :: "decoder \<Rightarrow> jsval \<Rightarrow> jsval io" where
  "get unstr key =
     bind_io (lift_io (stringify key)) (\<lambda>set_key.
     bind_io (NodeCache_get unstr set_key) (\<lambda>value.
     if falsy value then throw_io KeyNotFound else pure_io (unstr value)))"

text \<open>
  \<^verbatim>\<open>public async exists (key: any): Promise<boolean> {
      try { await this.get(key); return true; } catch { return false; } }\<close>
\<close>

definition exists :: "decoder \<Rightarrow> jsval \<Rightarrow> bool io" where
  "exists unstr key =
     (\<lambda>s. case get unstr key s of
            None \<Rightarrow> None
          | Some (Inl e, s') \<Rightarrow> Some (Inr False, s')
          | Some (Inr v, s') \<Rightarrow> Some (Inr True, s'))"

text \<open>\<^verbatim>\<open>public async flush (): Promise<void> { this.m_cache.flushAll(); }\<close>\<close>

definition flush :: "unit io" where
  "flush = NodeCache_flushAll"

text \<open>
  A \<^verbatim>\<open>Map\<close> is the list of its entries in insertion order.  \<^verbatim>\<open>Map.prototype.set\<close>
  compares keys by \<^verbatim>\<open>SameValueZero\<close>: primitive values by value, arrays and objects by
  identity.  The keys the class inserts are fresh results of \<^verbatim>\<open>JSON.parse\<close>, so an array
  or an object is never the same as a key already present.
\<close>

fun is_primitive :: "jsval \<Rightarrow> bool" where
  "is_primitive (JArr xs) = False"
| "is_primitive (JObj ps) = False"
| "is_primitive v = True"

fun Map_set :: "(jsval \<times> 'v) list \<Rightarrow> jsval \<Rightarrow> 'v \<Rightarrow> (jsval \<times> 'v) list" where
  "Map_set [] k v = [(k, v)]"
| "Map_set ((k', v') # m) k v =
     (if is_primitive k \<and> k' = k then (k', v) # m else (k', v') # Map_set m k v)"

text \<open>
  \<^verbatim>\<open>public async mget<T> (keys: any[]): Promise<Map<any, T>> {
      const fetch_keys = keys.map(key => this.stringify(key));
      const data = this.m_cache.mget(fetch_keys);
      const values: Map<any, T> = new Map<any, T>();
      for (const key of Object.keys(data)) {
          if (data[key]) {
              values.set(this.unstringify(key), this.unstringify(data[key] as string) as T);
          }
      }
      return values; }\<close>
\<close>

fun mget_loop ::
  "decoder \<Rightarrow> (string \<times> string option) list \<Rightarrow> string list \<Rightarrow> (jsval \<times> jsval) list
     \<Rightarrow> (error + (jsval \<times> jsval) list) option" where
  "mget_loop unstr dat [] values = Some (Inr values)"
| "mget_loop unstr dat (key # keys) values =
     (case map_of dat key of
        None \<Rightarrow> mget_loop unstr dat keys values
      | Some value \<Rightarrow>
          if falsy value then mget_loop unstr dat keys values
          else
            (case unstr (Some key) of
               None \<Rightarrow> None
             | Some (Inl e) \<Rightarrow> Some (Inl e)
             | Some (Inr k) \<Rightarrow>
                 (case unstr value of
                    None \<Rightarrow> None
                  | Some (Inl e) \<Rightarrow> Some (Inl e)
                  | Some (Inr v) \<Rightarrow> mget_loop unstr dat keys (Map_set values k v))))"

definition mget :: "decoder \<Rightarrow> jsval list \<Rightarrow> (jsval \<times> jsval) list io" where
  "mget unstr keys =
     bind_io (lift_io (map_stringify keys)) (\<lambda>fetch_keys.
     bind_io (NodeCache_mget unstr fetch_keys) (\<lambda>dat.
     pure_io (mget_loop unstr dat (map fst dat) [])))"

text \<open>
  \<^verbatim>\<open>public async keys (): Promise<any[]> {
      return this.m_cache.keys().map(key => this.unstringify(key)); }\<close>
\<close>

definition keys :: "decoder \<Rightarrow> jsval list io" where
  "keys unstr = (\<lambda>s. pure_io (map_unstringify unstr (NodeCache_keys s)) s)"

text \<open>
  \<^verbatim>\<open>public async list<T> (): Promise<Map<any, T>> {
      const keys = await this.keys();
      return this.mget(keys); }\<close>
\<close>

definition list_entries :: "decoder \<Rightarrow> (jsval \<times> jsval) list io" where
  "list_entries unstr = bind_io (keys unstr) (\<lambda>ks. mget unstr ks)"

text \<open>
  \<^verbatim>\<open>public async mdel (keys: any[]): Promise<void> {
      const fetch_keys = keys.map(key => this.stringify(key));
      this.m_cache.del(fetch_keys); }\<close>
\<close>

definition mdel :: "decoder \<Rightarrow> jsval list \<Rightarrow> unit io" where
  "mdel unstr ks = bind_io (lift_io (map_stringify ks)) (\<lambda>fetch_keys. NodeCache_del unstr fetch_keys)"

text \<open>
  \<^verbatim>\<open>public async set<T> (key: any, value: T, ttl = this.m_ttl): Promise<void> {
      const set_key = this.stringify(key);
      this.m_cache.set(set_key, this.stringify(value));
      this.m_cache.ttl(set_key, ttl); }\<close>

  The optional argument is \<open>None\<close> when the caller leaves it out.
\<close>

definition set_entry :: "decoder \<Rightarrow> jsval \<Rightarrow> jsval \<Rightarrow> int option \<Rightarrow> unit io" where
  "set_entry unstr key value ttl =
     (\<lambda>s. (bind_io (lift_io (stringify key)) (\<lambda>set_key.
           bind_io (lift_io (stringify value)) (\<lambda>tok.
           bind_io (NodeCache_set unstr set_key tok) (\<lambda>_.
           bind_io (NodeCache_ttl unstr set_key (case ttl of None \<Rightarrow> m_ttl s | Some t \<Rightarrow> t)) (\<lambda>_.
           return_io ()))))) s)"

text \<open>
  The second variant of the class:

  \<^verbatim>\<open>private unstringify<T> (str: any): T { return this.unstringify(str); }\<close>
\<close>

partial_function (option) unstringify_rec :: "string option \<Rightarrow> (error + jsval) option" where
  "unstringify_rec str = unstringify_rec str"

section \<open>Notions used to state the properties\<close>

subsection \<open>Tokens\<close>

text \<open>
  The token of a value is the text \<open>stringify\<close> returns for it.  A string is a token when
  it is the encoding of the value of a supported shape that it decodes to; the keys and
  values that the class writes for such values are tokens.
\<close>

definition token_of :: "jsval \<Rightarrow> string" where
  "token_of v = (case stringify v of Inr (Some t) \<Rightarrow> t | _ \<Rightarrow> [])"

definition is_token :: "string \<Rightarrow> bool" where
  "is_token t =
     (case JSON_parse t of
        Inr v \<Rightarrow> json_value v \<and> stringify v = Inr (Some t)
      | Inl e \<Rightarrow> False)"

definition decoded :: "string \<Rightarrow> jsval" where
  "decoded t = (case JSON_parse t of Inr v \<Rightarrow> v | Inl e \<Rightarrow> JUndefined)"

text \<open>
  A store is well formed when its keys are pairwise different (it is an object) and every
  key and every value in it is a token.  It is what the class leaves when it is used with
  keys and values of supported shapes: the store of a new cache is well formed, and
  \<open>set_entry\<close>, \<open>get\<close>, \<open>mget\<close>, \<open>mdel\<close> and \<open>flush\<close> keep it so (see the
  section on well-formedness below).
\<close>

definition store_ok :: "cache \<Rightarrow> bool" where
  "store_ok s =
     (distinct (map fst (data s))
      \<and> (\<forall>p \<in> set (data s).
            is_token (fst p) \<and> (case entry_v (snd p) of None \<Rightarrow> False | Some t \<Rightarrow> is_token t)))"

subsection \<open>Live entries\<close>

text \<open>
  The entry under a key that \<open>NodeCache_check\<close> finds valid, and, for a key as the caller
  passes it, the decoded value of that entry.  Lemma \<open>get_succeeds_iff\<close> ties the second
  to \<open>get\<close>: it is the value \<open>get\<close> returns, and \<open>None\<close> exactly when \<open>get\<close>
  throws.
\<close>

definition live_entry :: "cache \<Rightarrow> string \<Rightarrow> entry option" where
  "live_entry s k =
     (case map_of (data s) k of
        None \<Rightarrow> None
      | Some e \<Rightarrow> if expired s e then None else Some e)"

definition live_value :: "cache \<Rightarrow> jsval \<Rightarrow> jsval option" where
  "live_value s key =
     (case stringify key of
        Inr (Some k) \<Rightarrow>
          (case live_entry s k of
             Some e \<Rightarrow>
               (case entry_v e of
                  Some t \<Rightarrow> (case JSON_parse t of Inr v \<Rightarrow> Some v | Inl err \<Rightarrow> None)
                | None \<Rightarrow> None)
           | None \<Rightarrow> None)
      | _ \<Rightarrow> None)"

text \<open>
  The data of the store once the expired entries among the keys \<open>K\<close> have been deleted,
  the step by which \<open>NodeCache_mget\<close> adds a key to its result, and the decoding of one of
  its properties.
\<close>

definition purge :: "cache \<Rightarrow> string set \<Rightarrow> (string \<times> entry) list" where
  "purge s K = filter (\<lambda>p. \<not> (fst p \<in> K \<and> expired s (snd p))) (data s)"

definition collect :: "cache \<Rightarrow> (string \<times> string option) list \<Rightarrow> string \<Rightarrow> (string \<times> string option) list" where
  "collect s oRet k = (case live_entry s k of None \<Rightarrow> oRet | Some e \<Rightarrow> obj_put oRet k (entry_v e))"

definition decode_pair :: "string \<times> string option \<Rightarrow> jsval \<times> jsval" where
  "decode_pair p = (decoded (fst p), decoded (ToString (snd p)))"

subsection \<open>Auxiliary notions of the proofs about the parser\<close>

text \<open>
  What may follow the text of a number without continuing it, and the property proved of
  every value of a supported shape by induction on the value.
\<close>

definition number_end :: "string \<Rightarrow> bool" where
  "number_end rest =
     (case rest of [] \<Rightarrow> True
      | c # _ \<Rightarrow> \<not> is_digit c \<and> c \<noteq> CHR ''.'' \<and> c \<noteq> CHR ''e'' \<and> c \<noteq> CHR ''E'')"

definition token_ok :: "jsval \<Rightarrow> bool" where
  "token_ok v \<longleftrightarrow>
     (\<exists>t. SerializeJSONProperty v = Inr (Some t) \<and> t \<noteq> [] \<and> \<not> is_ws (hd t) \<and> hd t \<noteq> CHR '']''
        \<and> (\<forall>rest. number_end rest \<longrightarrow> parse_value (t @ rest) = Inr (v, rest)))"

subsection \<open>Example states\<close>

text \<open>
  A cache as \<^verbatim>\<open>new(300, 30)\<close> leaves it; a cache that holds a live entry for the key
  \<^verbatim>\<open>"a"\<close> with the value \<^verbatim>\<open>{x: 1}\<close> and an expired entry for the key
  \<^verbatim>\<open>"old"\<close>; and a cache constructed with a negative default time to live.
\<close>

definition empty_store :: cache where
  "empty_store = \<lparr>m_ttl = 300, m_checkPeriod = 30, data = [], clock = 1000000, emitted = []\<rparr>"

definition example_store :: cache where
  \<open>example_store =
     \<lparr>m_ttl = 300, m_checkPeriod = 30,
      data = [(''"a"'', \<lparr>entry_t = 1300000, entry_v = Some ''{"x":1}''\<rparr>),
              (''"old"'', \<lparr>entry_t = 900000, entry_v = Some ''2''\<rparr>)],
      clock = 1000000, emitted = []\<rparr>\<close>

definition misconfigured_store :: cache where
  "misconfigured_store = \<lparr>m_ttl = - 1, m_checkPeriod = 30, data = [], clock = 1000000, emitted = []\<rparr>"

section \<open>The parser consumes what it reads\<close>

text \<open>
  A successful parse leaves less text than it was given.  Hence the two length tests in
  \<open>parse_elements\<close> and \<open>parse_members\<close> always succeed, and the functions satisfy the
  equations of the grammar without them.
\<close>

lemma parse_number_length:
  assumes "parse_number s = Inr (v, r)"
  shows "length r < length s"
proof -
  define body where "body = (if s \<noteq> [] \<and> hd s = CHR ''-'' then tl s else s)"
  have bl: "length body \<le> length s"
    by (simp add: body_def)
  from assms obtain d r0 where b: "body = d # r0" "is_digit d"
    by (cases body) (auto simp: parse_number_def body_def Let_def split: if_splits)
  have "r = r0 \<or> r = dropWhile is_digit body"
    using assms b
    by (auto simp: parse_number_def body_def[symmetric] Let_def parse_nat_def split: if_splits prod.splits)
  moreover have "length (dropWhile is_digit body) < length body"
    using b length_dropWhile_le[of is_digit r0] by simp
  ultimately have "length r < length body"
    using b(1) by auto
  with bl show ?thesis by simp
qed

lemma take_literal_length: "take n t = lit \<Longrightarrow> length lit = n \<Longrightarrow> 0 < n \<Longrightarrow> length (drop n t) < length t"
  by (cases "n \<le> length t") auto

lemma parse_lengths:
  "(\<forall>v r. parse_value s = Inr (v, r) \<longrightarrow> length r < length s)
   \<and> (\<forall>vs r. parse_elements s = Inr (vs, r) \<longrightarrow> length r < length s)
   \<and> (\<forall>ms r. parse_members s = Inr (ms, r) \<longrightarrow> length r < length s)"
proof (induction "length s" arbitrary: s rule: less_induct)
  case less
  have IHe: "length r < length s'" if "length s' < length s" "parse_elements s' = Inr (vs, r)"
    for s' vs r using less.hyps[OF that(1)] that(2) by blast
  have IHm: "length r < length s'" if "length s' < length s" "parse_members s' = Inr (ms, r)"
    for s' ms r using less.hyps[OF that(1)] that(2) by blast
  have IHv: "length r < length s'" if "length s' < length s" "parse_value s' = Inr (v, r)"
    for s' v r using less.hyps[OF that(1)] that(2) by blast
  have pv: "length r < length s" if pv: "parse_value s = Inr (v, r)" for v r
  proof -
    define t where "t = skip_ws s"
    have tl: "length t \<le> length s"
      unfolding t_def by (rule skip_ws_length)
    consider (null) "take 4 t = ''null''" "r = drop 4 t"
      | (true) "take 4 t = ''true''" "r = drop 4 t"
      | (false) "take 5 t = ''false''" "r = drop 5 t"
      | (other) c r0 where "t = c # r0"
          "(if c = CHR 0x22 then
              (case parse_chars r0 of Inl e \<Rightarrow> Inl e | Inr (str, r') \<Rightarrow> Inr (JStr str, r'))
            else if c = CHR ''['' then
              (case skip_ws r0 of
                 [] \<Rightarrow> Inl SyntaxError
               | c' # r' \<Rightarrow>
                   if c' = CHR '']'' then Inr (JArr [], r')
                   else (case parse_elements r0 of
                           Inl e \<Rightarrow> Inl e
                         | Inr (vs, r'') \<Rightarrow> Inr (JArr vs, r'')))
            else if c = CHR ''{'' then
              (case skip_ws r0 of
                 [] \<Rightarrow> Inl SyntaxError
               | c' # r' \<Rightarrow>
                   if c' = CHR ''}'' then Inr (JObj [], r')
                   else (case parse_members r0 of
                           Inl e \<Rightarrow> Inl e
                         | Inr (ms, r'') \<Rightarrow> Inr (JObj (build_object ms), r'')))
            else parse_number t) = Inr (v, r)"
      using pv unfolding parse_value.simps[of s] t_def[symmetric] Let_def
      by (cases t) (auto split: if_splits)
    then show ?thesis
    proof cases
      case null
      with take_literal_length[of 4 t "''null''"] tl show ?thesis by simp
    next
      case true
      with take_literal_length[of 4 t "''true''"] tl show ?thesis by simp
    next
      case false
      with take_literal_length[of 5 t "''false''"] tl show ?thesis by simp
    next
      case (other c r0)
      have r0: "length r0 < length s" using other(1) tl by simp
      consider (str) "c = CHR 0x22" | (arr) "c \<noteq> CHR 0x22" "c = CHR ''[''"
        | (obj) "c \<noteq> CHR 0x22" "c \<noteq> CHR ''[''" "c = CHR ''{''"
        | (num) "c \<noteq> CHR 0x22" "c \<noteq> CHR ''[''" "c \<noteq> CHR ''{''"
        by blast
      then show ?thesis
      proof cases
        case str
        with other(2) obtain str' where "parse_chars r0 = Inr (str', r)"
          by (auto split: sum.splits)
        from parse_chars_length[OF this] r0 show ?thesis by simp
      next
        case arr
        with other(2) obtain c' r' where sk: "skip_ws r0 = c' # r'"
          by (cases "skip_ws r0") auto
        show ?thesis
        proof (cases "c' = CHR '']''")
          case True
          with arr other(2) sk have "r = r'" by simp
          with skip_ws_tail[OF sk[symmetric]] r0 show ?thesis by simp
        next
          case False
          with arr other(2) sk obtain vs where "parse_elements r0 = Inr (vs, r)"
            by (auto split: sum.splits)
          from IHe[OF r0 this] r0 show ?thesis by simp
        qed
      next
        case obj
        with other(2) obtain c' r' where sk: "skip_ws r0 = c' # r'"
          by (cases "skip_ws r0") auto
        show ?thesis
        proof (cases "c' = CHR ''}''")
          case True
          with obj other(2) sk have "r = r'" by simp
          with skip_ws_tail[OF sk[symmetric]] r0 show ?thesis by simp
        next
          case False
          with obj other(2) sk obtain ms where "parse_members r0 = Inr (ms, r)"
            by (auto split: sum.splits)
          from IHm[OF r0 this] r0 show ?thesis by simp
        qed
      next
        case num
        with other(2) have "parse_number t = Inr (v, r)" by simp
        from parse_number_length[OF this] tl show ?thesis by simp
      qed
    qed
  qed
  have pe: "length r < length s" if pe: "parse_elements s = Inr (vs, r)" for vs r
  proof -
    from pe obtain v r1 where v: "parse_value s = Inr (v, r1)"
      unfolding parse_elements.simps[of s] by (auto split: sum.splits)
    from pv[OF v] have r1: "length r1 < length s" .
    from pe v obtain c r' where sk: "skip_ws r1 = c # r'"
      unfolding parse_elements.simps[of s] by (cases "skip_ws r1") auto
    from skip_ws_tail[OF sk[symmetric]] r1 have r': "length r' < length s" by simp
    show ?thesis
    proof (cases "c = CHR '',''")
      case True
      with pe v sk r' obtain vs' where "parse_elements r' = Inr (vs', r)"
        unfolding parse_elements.simps[of s] by (auto split: sum.splits)
      from IHe[OF r' this] r' show ?thesis by simp
    next
      case False
      with pe v sk have "r = r'"
        unfolding parse_elements.simps[of s] by (auto split: if_splits)
      with r' show ?thesis by simp
    qed
  qed
  have pm: "length r < length s" if pm: "parse_members s = Inr (ms, r)" for ms r
  proof -
    from pm obtain q r0 where sk0: "skip_ws s = q # r0" "q = CHR 0x22"
      unfolding parse_members.simps[of s] by (cases "skip_ws s") (auto split: if_splits)
    from skip_ws_tail[OF sk0(1)[symmetric]] have r0: "length r0 < length s" .
    from pm sk0 obtain k r1 where k: "parse_chars r0 = Inr (k, r1)"
      unfolding parse_members.simps[of s] by (auto split: sum.splits)
    from parse_chars_length[OF k] r0 have r1: "length r1 < length s" by simp
    from pm sk0 k obtain c r2 where sk1: "skip_ws r1 = c # r2" "c = CHR '':''"
      unfolding parse_members.simps[of s] by (cases "skip_ws r1") (auto split: if_splits)
    from skip_ws_tail[OF sk1(1)[symmetric]] r1 have r2: "length r2 < length s" by simp
    from pm sk0 k sk1 obtain v r3 where v: "parse_value r2 = Inr (v, r3)"
      unfolding parse_members.simps[of s] by (auto split: sum.splits)
    from IHv[OF r2 v] r2 have r3: "length r3 < length s" by simp
    from pm sk0 k sk1 v obtain c' r4 where sk3: "skip_ws r3 = c' # r4"
      unfolding parse_members.simps[of s] by (cases "skip_ws r3") auto
    from skip_ws_tail[OF sk3[symmetric]] r3 have r4: "length r4 < length s" by simp
    show ?thesis
    proof (cases "c' = CHR '',''")
      case True
      with pm sk0 k sk1 v sk3 r4 obtain ms' where "parse_members r4 = Inr (ms', r)"
        unfolding parse_members.simps[of s] by (auto split: sum.splits)
      from IHm[OF r4 this] r4 show ?thesis by simp
    next
      case False
      with pm sk0 k sk1 v sk3 have "r = r4"
        unfolding parse_members.simps[of s] by (auto split: if_splits)
      with r4 show ?thesis by simp
    qed
  qed
  from pv pe pm show ?case by blast
qed

lemma parse_elements_unguarded:
  "parse_elements s =
     (case parse_value s of
        Inl e \<Rightarrow> Inl e
      | Inr (v, r) \<Rightarrow>
          (case skip_ws r of
             [] \<Rightarrow> Inl SyntaxError
           | c # r' \<Rightarrow>
               if c = CHR '','' then
                 (case parse_elements r' of
                    Inl e \<Rightarrow> Inl e
                  | Inr (vs, r'') \<Rightarrow> Inr (v # vs, r''))
               else if c = CHR '']'' then Inr ([v], r')
               else Inl SyntaxError))"
proof (cases "parse_value s")
  case (Inl e)
  then show ?thesis by (subst parse_elements.simps) simp
next
  case (Inr p)
  obtain v r where p: "p = (v, r)" by (cases p)
  with Inr parse_lengths[of s] have r: "length r < length s" by simp
  show ?thesis
  proof (cases "skip_ws r")
    case Nil
    with Inr p show ?thesis by (subst parse_elements.simps) simp
  next
    case (Cons c r')
    from skip_ws_tail[OF Cons[symmetric]] r have "length r' < length s" by simp
    with Inr p Cons show ?thesis by (subst parse_elements.simps) simp
  qed
qed

lemma parse_members_unguarded:
  "parse_members s =
     (case skip_ws s of
        [] \<Rightarrow> Inl SyntaxError
      | q # r0 \<Rightarrow>
          if q \<noteq> CHR 0x22 then Inl SyntaxError
          else
            (case parse_chars r0 of
               Inl e \<Rightarrow> Inl e
             | Inr (k, r1) \<Rightarrow>
                 (case skip_ws r1 of
                    [] \<Rightarrow> Inl SyntaxError
                  | c # r2 \<Rightarrow>
                      if c \<noteq> CHR '':'' then Inl SyntaxError
                      else
                        (case parse_value r2 of
                           Inl e \<Rightarrow> Inl e
                         | Inr (v, r3) \<Rightarrow>
                             (case skip_ws r3 of
                                [] \<Rightarrow> Inl SyntaxError
                              | c' # r4 \<Rightarrow>
                                  if c' = CHR '','' then
                                    (case parse_members r4 of
                                       Inl e \<Rightarrow> Inl e
                                     | Inr (ms, r5) \<Rightarrow> Inr ((k, v) # ms, r5))
                                  else if c' = CHR ''}'' then Inr ([(k, v)], r4)
                                  else Inl SyntaxError)))))"
proof -
  have guard: "length r4 < length s"
    if "skip_ws s = q # r0" "parse_chars r0 = Inr (k, r1)" "skip_ws r1 = c # r2"
       "parse_value r2 = Inr (v, r3)" "skip_ws r3 = c' # r4" for q r0 k r1 c r2 v r3 c' r4
    using skip_ws_tail[OF that(1)[symmetric]] parse_chars_length[OF that(2)]
      skip_ws_tail[OF that(3)[symmetric]] parse_lengths[of r2] that(4)
      skip_ws_tail[OF that(5)[symmetric]]
    by simp
  show ?thesis
    by (subst parse_members.simps)
       (auto split: list.splits sum.splits prod.splits dest: guard)
qed

section \<open>Decoding an encoded value\<close>

text \<open>
  The lemmas lead to \<open>json_value_token_ok\<close>: the text of a value of a supported shape is
  not empty, starts with a character that is neither white space nor a closing bracket,
  and parses back to the value, whatever follows it, provided that what follows cannot
  continue a number.
\<close>

lemma is_digit_char_of: "(d::nat) < 10 \<Longrightarrow> is_digit (char_of (48 + d))"
  by (simp add: is_digit_def)

lemma digit_val_char_of: "(d::nat) < 10 \<Longrightarrow> digit_val (char_of (48 + d)) = d"
  by (simp add: digit_val_def)

lemma digits_all: "c \<in> set (digits n) \<Longrightarrow> is_digit c"
proof (induction n arbitrary: c rule: digits.induct)
  case (1 n)
  then show ?case
    by (subst (asm) digits.simps) (auto simp: is_digit_char_of split: if_splits)
qed

lemma digits_nonempty: "digits n \<noteq> []"
  by (subst digits.simps) simp

lemma digits_value: "foldl (\<lambda>a c. 10 * a + digit_val c) 0 (digits n) = n"
proof (induction n rule: digits.induct)
  case (1 n)
  show ?case
  proof (cases "n < 10")
    case True
    then show ?thesis by (subst digits.simps) (simp add: digit_val_char_of)
  next
    case False
    with 1 show ?thesis by (subst digits.simps) (simp add: digit_val_char_of)
  qed
qed

lemma digits_hd: "0 < n \<Longrightarrow> hd (digits n) \<noteq> CHR ''0''"
proof (induction n rule: digits.induct)
  case (1 n)
  show ?case
  proof (cases "n < 10")
    case True
    with "1.prems" have "(of_char (char_of (48 + n)) :: nat) \<noteq> of_char (CHR ''0'')"
      by simp
    then have "char_of (48 + n) \<noteq> CHR ''0''"
      by metis
    with True show ?thesis by (subst digits.simps) simp
  next
    case False
    then have "0 < n div 10" by simp
    with 1 False show ?thesis
      by (subst digits.simps) (simp add: digits_nonempty)
  qed
qed

lemma parse_nat_digits:
  assumes "number_end rest"
  shows "parse_nat (digits n @ rest) = (n, rest)"
proof -
  have tw: "takeWhile is_digit (digits n @ rest) = digits n"
    using assms by (cases rest) (auto simp: digits_all number_end_def)
  have dw: "dropWhile is_digit (digits n @ rest) = rest"
    using assms by (cases rest) (auto simp: digits_all number_end_def)
  show ?thesis by (simp add: parse_nat_def tw dw digits_value)
qed

lemma parse_number_roundtrip:
  assumes "\<bar>i\<bar> \<le> 9007199254740991" and "number_end rest"
  shows "parse_number (Number_toString i @ rest) = Inr (JNum i, rest)"
proof (cases "i < 0")
  case True
  define n where "n = nat (- i)"
  with True have n: "0 < n" "i = - int n" "n \<le> 9007199254740991"
    using assms(1) by auto
  obtain d ds where ds: "digits n = d # ds"
    using digits_nonempty[of n] by (cases "digits n") auto
  have d: "is_digit d" "d \<noteq> CHR ''0''"
    using digits_all[of d n] digits_hd[OF n(1)] ds by auto
  have pn: "parse_nat (d # ds @ rest) = (n, rest)"
    using parse_nat_digits[OF assms(2), of n] ds by simp
  have "Number_toString i = CHR ''-'' # d # ds"
    using True ds by (simp add: Number_toString_def n_def)
  then show ?thesis
    using d pn n assms(2)
    by (auto simp: parse_number_def number_end_def split: list.splits)
next
  case False
  define n where "n = nat i"
  with False have n: "i = int n" "n \<le> 9007199254740991"
    using assms(1) by auto
  obtain d ds where ds: "digits n = d # ds"
    using digits_nonempty[of n] by (cases "digits n") auto
  have d: "is_digit d" "d \<noteq> CHR ''-''"
    using digits_all[of d n] ds by (auto simp: is_digit_def)
  have pn: "parse_nat (d # ds @ rest) = (n, rest)"
    using parse_nat_digits[OF assms(2), of n] ds by simp
  have zero: "d = CHR ''0'' \<Longrightarrow> n = 0 \<and> ds = []"
  proof -
    assume "d = CHR ''0''"
    with digits_hd[of n] ds have "n = 0" by auto
    with ds show ?thesis by (subst (asm) digits.simps) simp
  qed
  have "Number_toString i = d # ds"
    using False ds by (simp add: Number_toString_def n_def)
  then show ?thesis
    using d pn n assms(2) zero
    by (auto simp: parse_number_def number_end_def split: list.splits)
qed

lemma hex_val_digit_all: "\<forall>m \<in> set [0..<16]. hex_val (hex_digit m) = Some m"
  by code_simp

lemma hex_val_digit: "m < 16 \<Longrightarrow> hex_val (hex_digit m) = Some m"
  using hex_val_digit_all by simp

lemma hex4_control:
  assumes "n < 256"
  shows "hex4 (CHR ''0'') (CHR ''0'') (hex_digit (n div 16)) (hex_digit (n mod 16)) = Some n"
proof -
  have "n div 16 < 16" using assms by simp
  then show ?thesis
    by (simp add: hex4_def hex_val_digit) (simp add: hex_val_def)
qed

lemma parse_chars_quote_char:
  "parse_chars (quote_char c @ tail) = cons_char c (parse_chars tail)"
proof -
  consider (tab) "c = CHR 0x08 \<or> c = CHR 0x09 \<or> c = CHR 0x0A \<or> c = CHR 0x0C \<or> c = CHR 0x0D
                   \<or> c = CHR 0x22 \<or> c = CHR 0x5C"
    | (ctl) "\<not> (c = CHR 0x08 \<or> c = CHR 0x09 \<or> c = CHR 0x0A \<or> c = CHR 0x0C \<or> c = CHR 0x0D
                   \<or> c = CHR 0x22 \<or> c = CHR 0x5C)" "of_char c < (0x20 :: nat)"
    | (plain) "\<not> (c = CHR 0x08 \<or> c = CHR 0x09 \<or> c = CHR 0x0A \<or> c = CHR 0x0C \<or> c = CHR 0x0D
                   \<or> c = CHR 0x22 \<or> c = CHR 0x5C)" "\<not> of_char c < (0x20 :: nat)"
    by blast
  then show ?thesis
  proof cases
    case tab
    then show ?thesis
      by (elim disjE) (simp_all add: quote_char_def unescape_def)
  next
    case ctl
    have "(of_char c :: nat) < 256" by simp
    from hex4_control[OF this] ctl show ?thesis
      by (simp add: quote_char_def)
  next
    case plain
    then show ?thesis by (simp add: quote_char_def)
  qed
qed

lemma parse_chars_roundtrip:
  "parse_chars (concat (map quote_char s) @ CHR 0x22 # rest) = Inr (s, rest)"
  by (induction s) (simp_all add: parse_chars_quote_char cons_char_def)

lemma skip_ws_Cons: "\<not> is_ws c \<Longrightarrow> skip_ws (c # s) = c # s"
  by (simp add: skip_ws_def)

lemma skip_ws_hd: "t \<noteq> [] \<Longrightarrow> \<not> is_ws (hd t) \<Longrightarrow> skip_ws (t @ s) = t @ s"
  by (cases t) (simp_all add: skip_ws_def)

lemma join_comma_Cons: "ps \<noteq> [] \<Longrightarrow> join_comma (t # ps) = t @ CHR '','' # join_comma ps"
  by (cases ps) simp_all

lemma number_end_simps [simp]:
  "number_end []" "number_end (CHR '','' # r)" "number_end (CHR '']'' # r)" "number_end (CHR ''}'' # r)"
  by (simp_all add: number_end_def is_digit_def)

lemma elements_roundtrip:
  assumes "\<forall>x \<in> set xs. token_ok x" and "xs \<noteq> []"
  shows "\<exists>partial. SerializeJSONArray xs = Inr partial \<and> partial \<noteq> []
           \<and> join_comma partial \<noteq> [] \<and> \<not> is_ws (hd (join_comma partial))
           \<and> hd (join_comma partial) \<noteq> CHR '']''
           \<and> (\<forall>rest. parse_elements (join_comma partial @ CHR '']'' # rest) = Inr (xs, rest))"
  using assms
proof (induction xs)
  case Nil
  then show ?case by simp
next
  case (Cons x xs)
  from Cons.prems obtain t where t: "SerializeJSONProperty x = Inr (Some t)" "t \<noteq> []"
      "\<not> is_ws (hd t)" "hd t \<noteq> CHR '']''"
      "\<And>rest. number_end rest \<Longrightarrow> parse_value (t @ rest) = Inr (x, rest)"
    by (auto simp: token_ok_def)
  show ?case
  proof (cases "xs = []")
    case True
    have "parse_elements (t @ CHR '']'' # rest) = Inr ([x], rest)" for rest
      by (subst parse_elements.simps) (simp add: t(5) skip_ws_Cons is_ws_def)
    with t True show ?thesis by simp
  next
    case False
    with Cons obtain partial where p: "SerializeJSONArray xs = Inr partial" "partial \<noteq> []"
        "\<And>rest. parse_elements (join_comma partial @ CHR '']'' # rest) = Inr (xs, rest)"
      by auto
    have "parse_elements (t @ CHR '','' # join_comma partial @ CHR '']'' # rest) = Inr (x # xs, rest)"
      for rest
      by (subst parse_elements.simps) (simp add: t(5) skip_ws_Cons is_ws_def p(3))
    with t p show ?thesis
      by (simp add: join_comma_Cons)
  qed
qed

lemma members_roundtrip:
  assumes "\<forall>p \<in> set ps. token_ok (snd p)" and "ps \<noteq> []"
  shows "\<exists>partial. SerializeJSONObject ps = Inr partial \<and> partial \<noteq> []
           \<and> join_comma partial \<noteq> [] \<and> hd (join_comma partial) = CHR 0x22
           \<and> (\<forall>rest. parse_members (join_comma partial @ CHR ''}'' # rest) = Inr (ps, rest))"
  using assms
proof (induction ps)
  case Nil
  then show ?case by simp
next
  case (Cons p ps)
  obtain k x where kx: "p = (k, x)" by (cases p)
  from Cons.prems kx obtain t where t: "SerializeJSONProperty x = Inr (Some t)" "t \<noteq> []"
      "\<not> is_ws (hd t)"
      "\<And>rest. number_end rest \<Longrightarrow> parse_value (t @ rest) = Inr (x, rest)"
    by (auto simp: token_ok_def)
  define m where "m = QuoteJSONString k @ CHR '':'' # t"
  have m_hd: "m \<noteq> []" "hd m = CHR 0x22"
    by (simp_all add: m_def QuoteJSONString_def)
  show ?case
  proof (cases "ps = []")
    case True
    have "parse_members (m @ CHR ''}'' # rest) = Inr ([(k, x)], rest)" for rest
      by (subst parse_members.simps)
         (simp add: m_def QuoteJSONString_def skip_ws_Cons is_ws_def parse_chars_roundtrip t(4))
    with t True kx m_hd show ?thesis by (simp add: m_def)
  next
    case False
    with Cons obtain partial where p: "SerializeJSONObject ps = Inr partial" "partial \<noteq> []"
        "\<And>rest. parse_members (join_comma partial @ CHR ''}'' # rest) = Inr (ps, rest)"
      by auto
    have "parse_members (m @ CHR '','' # join_comma partial @ CHR ''}'' # rest) = Inr ((k, x) # ps, rest)"
      for rest
      by (subst parse_members.simps)
         (simp add: m_def QuoteJSONString_def skip_ws_Cons is_ws_def parse_chars_roundtrip t(4) p(3))
    with t p kx show ?thesis
      by (simp add: join_comma_Cons m_def QuoteJSONString_def)
  qed
qed

lemma obj_put_fresh: "k \<notin> fst ` set ps \<Longrightarrow> obj_put ps k v = ps @ [(k, v)]"
  by (induction ps) auto

lemma build_object_fold:
  "distinct (map fst (acc @ ms)) \<Longrightarrow>
     foldl (\<lambda>acc (k, v). obj_put acc k v) acc ms = acc @ ms"
proof (induction ms arbitrary: acc)
  case Nil
  then show ?case by simp
next
  case (Cons m ms)
  obtain k v where kv: "m = (k, v)" by (cases m)
  with Cons.prems have "k \<notin> fst ` set acc" by auto
  then have "obj_put acc k v = acc @ [(k, v)]" by (rule obj_put_fresh)
  with Cons.IH[of "acc @ [(k, v)]"] Cons.prems kv show ?case by simp
qed

lemma build_object_distinct: "distinct (map fst ms) \<Longrightarrow> build_object ms = ms"
  using build_object_fold[of "[]" ms] by (simp add: build_object_def)

lemma json_value_token_ok: "json_value v \<Longrightarrow> token_ok v"
proof (induction v)
  case JUndefined
  then show ?case by simp
next
  case JNull
  show ?case
    unfolding token_ok_def
    by (simp add: is_ws_def) (simp add: parse_value.simps skip_ws_Cons is_ws_def)
next
  case (JBool b)
  show ?case
    unfolding token_ok_def
    by (cases b) (simp_all add: is_ws_def parse_value.simps skip_ws_Cons)
next
  case (JNum i)
  have "\<exists>d ds. Number_toString i = d # ds \<and> (d = CHR ''-'' \<or> is_digit d)"
  proof (cases "i < 0")
    case True
    then show ?thesis by (simp add: Number_toString_def)
  next
    case False
    then show ?thesis
      using digits_nonempty[of "nat i"] digits_all[of _ "nat i"]
      by (cases "digits (nat i)") (auto simp: Number_toString_def)
  qed
  then obtain d ds where ds: "Number_toString i = d # ds" "d = CHR ''-'' \<or> is_digit d"
    by blast
  then have d: "\<not> is_ws d" "d \<noteq> CHR '']''" "d \<noteq> CHR 0x22" "d \<noteq> CHR ''[''" "d \<noteq> CHR ''{''"
      "d \<noteq> CHR ''n''" "d \<noteq> CHR ''t''" "d \<noteq> CHR ''f''"
    by (auto simp: is_ws_def is_digit_def)
  have "parse_value (d # ds @ rest) = Inr (JNum i, rest)" if "number_end rest" for rest
    using parse_number_roundtrip[of i rest] that JNum d ds(1)
    by (subst parse_value.simps) (simp add: skip_ws_Cons)
  with ds d show ?case
    unfolding token_ok_def by simp
next
  case JNaN
  then show ?case by simp
next
  case (JBigInt x)
  then show ?case by simp
next
  case (JStr s)
  show ?case
    unfolding token_ok_def
    by (simp add: QuoteJSONString_def is_ws_def)
       (simp add: parse_value.simps skip_ws_Cons is_ws_def parse_chars_roundtrip)
next
  case (JArr xs)
  show ?case
  proof (cases "xs = []")
    case True
    then show ?thesis
      unfolding token_ok_def
      by (simp add: is_ws_def) (simp add: parse_value.simps skip_ws_Cons is_ws_def)
  next
    case False
    from JArr have "\<forall>x \<in> set xs. token_ok x" by simp
    from elements_roundtrip[OF this False] obtain partial where
      p: "SerializeJSONArray xs = Inr partial" "join_comma partial \<noteq> []"
         "\<not> is_ws (hd (join_comma partial))" "hd (join_comma partial) \<noteq> CHR '']''"
         "\<And>rest. parse_elements (join_comma partial @ CHR '']'' # rest) = Inr (xs, rest)"
      by auto
    obtain c r where cr: "join_comma partial = c # r"
      using p(2) by (cases "join_comma partial") auto
    have "parse_value (CHR ''['' # c # r @ CHR '']'' # rest) = Inr (JArr xs, rest)" for rest
      using p(3,4) p(5)[of rest] cr
      by (subst parse_value.simps) (simp add: skip_ws_Cons is_ws_def)
    with p(1) cr show ?thesis
      unfolding token_ok_def by (simp add: is_ws_def)
  qed
next
  case (JObj ps)
  show ?case
  proof (cases "ps = []")
    case True
    then show ?thesis
      unfolding token_ok_def
      by (simp add: is_ws_def) (simp add: parse_value.simps skip_ws_Cons is_ws_def build_object_def)
  next
    case False
    from JObj have "\<forall>p \<in> set ps. token_ok (snd p)"
      by (auto simp: snds.simps)
    from members_roundtrip[OF this False] obtain partial where
      p: "SerializeJSONObject ps = Inr partial" "join_comma partial \<noteq> []"
         "hd (join_comma partial) = CHR 0x22"
         "\<And>rest. parse_members (join_comma partial @ CHR ''}'' # rest) = Inr (ps, rest)"
      by auto
    obtain r where cr: "join_comma partial = CHR 0x22 # r"
      using p(2,3) by (cases "join_comma partial") auto
    from JObj.prems have "build_object ps = ps"
      by (simp add: build_object_distinct)
    then have "parse_value (CHR ''{'' # CHR 0x22 # r @ CHR ''}'' # rest) = Inr (JObj ps, rest)" for rest
      using p(4)[of rest] cr
      by (subst parse_value.simps) (simp add: skip_ws_Cons is_ws_def)
    with p(1) cr show ?thesis
      unfolding token_ok_def by (simp add: is_ws_def)
  qed
qed

lemma stringify_JSON_parse:
  assumes "json_value v"
  shows "\<exists>tok. stringify v = Inr (Some tok) \<and> tok \<noteq> [] \<and> JSON_parse tok = Inr v"
proof -
  from json_value_token_ok[OF assms] obtain t where
    t: "SerializeJSONProperty v = Inr (Some t)" "t \<noteq> []"
       "\<And>rest. number_end rest \<Longrightarrow> parse_value (t @ rest) = Inr (v, rest)"
    by (auto simp: token_ok_def)
  from t(3)[of "[]"] have "JSON_parse t = Inr v"
    by (simp add: JSON_parse_def skip_ws_def)
  with t(1,2) show ?thesis by (simp add: stringify_def)
qed


section \<open>Tokens and sequencing\<close>

lemma token_of_json:
  assumes "json_value v"
  shows "stringify v = Inr (Some (token_of v))" "token_of v \<noteq> []"
    "JSON_parse (token_of v) = Inr v" "is_token (token_of v)" "decoded (token_of v) = v"
  using stringify_JSON_parse[OF assms] assms
  by (auto simp: token_of_def is_token_def decoded_def)

lemma is_tokenD:
  assumes "is_token t"
  shows "json_value (decoded t)" "token_of (decoded t) = t" "JSON_parse t = Inr (decoded t)"
    "t \<noteq> []"
proof -
  from assms obtain v where v: "JSON_parse t = Inr v" "json_value v" "stringify v = Inr (Some t)"
    by (auto simp: is_token_def split: sum.splits)
  then show "json_value (decoded t)" "token_of (decoded t) = t" "JSON_parse t = Inr (decoded t)"
    by (simp_all add: decoded_def token_of_def)
  from token_of_json(2)[OF v(2)] v(3) show "t \<noteq> []"
    by (simp add: token_of_def)
qed

lemma decoded_inj: "is_token a \<Longrightarrow> is_token b \<Longrightarrow> decoded a = decoded b \<Longrightarrow> a = b"
  using is_tokenD(2) by metis

lemma unstringify_token: "is_token t \<Longrightarrow> unstringify (Some t) = Some (Inr (decoded t))"
  by (simp add: unstringify_def ToString_def is_tokenD(3))

lemmas io_defs = bind_io_def return_io_def throw_io_def lift_io_def pure_io_def modify_data_def
  emit_def

lemma bind_io_return [simp]: "bind_io (return_io x) f = f x"
  by (simp add: bind_io_def return_io_def)

lemma bind_io_throw [simp]: "bind_io (throw_io e) f = throw_io e"
  by (simp add: bind_io_def throw_io_def)

lemma bind_io_lift [simp]:
  "bind_io (lift_io (Inr x)) f = f x" "bind_io (lift_io (Inl e)) f = throw_io e"
  by (simp_all add: bind_io_def lift_io_def throw_io_def)

lemma bind_io_Inr: "m s = Some (Inr x, s') \<Longrightarrow> bind_io m f s = f x s'"
  by (simp add: bind_io_def)


lemma bind_io_None: "m s = None \<Longrightarrow> bind_io m f s = None"
  by (simp add: bind_io_def)

lemma bind_io_eq_Inr:
  "bind_io m f s = Some (Inr y, s') \<longleftrightarrow> (\<exists>x s1. m s = Some (Inr x, s1) \<and> f x s1 = Some (Inr y, s'))"
  by (auto simp: bind_io_def split: option.splits sum.splits prod.splits)

lemma bind_io_total:
  "m s \<noteq> None \<Longrightarrow> (\<And>x s'. f x s' \<noteq> None) \<Longrightarrow> bind_io m f s \<noteq> None"
  by (auto simp: bind_io_def split: option.splits sum.splits prod.splits)

section \<open>The store in a well-formed state\<close>

text \<open>
  In a well-formed store every forwarded event decodes, so the methods of the store
  return; the lemmas give their result and the data they leave.
\<close>

lemma forward_unstringify:
  assumes "is_token k" "is_token v"
  shows "forward unstringify ev k (Some v) s
           = Some (Inr (), s\<lparr>emitted := emitted s @ [ev (decoded k) (decoded v)]\<rparr>)"
  by (simp add: forward_def bind_io_def pure_io_def emit_def unstringify_token assms)

lemma store_ok_lookup:
  assumes "store_ok s" "map_of (data s) k = Some e"
  shows "is_token k" "\<exists>t. entry_v e = Some t \<and> is_token t"
proof -
  from assms(2) have "(k, e) \<in> set (data s)" by (rule map_of_SomeD)
  with assms(1) show "is_token k" "\<exists>t. entry_v e = Some t \<and> is_token t"
    by (auto simp: store_ok_def split: option.splits)
qed

lemma store_ok_filter:
  assumes "store_ok s" "data s' = filter P (data s)"
  shows "store_ok s'"
  using assms by (auto simp: store_ok_def distinct_map_filter)

lemma obj_delete_absent: "map_of ps k = None \<Longrightarrow> obj_delete ps k = ps"
  by (induction ps) (auto simp: obj_delete_def split: if_splits)

lemma NodeCache_del_key_ok:
  assumes "store_ok s"
  shows "\<exists>s'. NodeCache_del_key unstringify k s = Some (Inr (), s')
           \<and> data s' = obj_delete (data s) k \<and> clock s' = clock s \<and> m_ttl s' = m_ttl s"
proof (cases "map_of (data s) k")
  case None
  then show ?thesis
    by (simp add: NodeCache_del_key_def return_io_def obj_delete_absent)
next
  case (Some e)
  from store_ok_lookup[OF assms Some] obtain t where "is_token k" "entry_v e = Some t" "is_token t"
    by auto
  with Some show ?thesis
    by (simp add: NodeCache_del_key_def bind_io_def modify_data_def forward_unstringify)
qed

lemma NodeCache_del_ok:
  assumes "store_ok s"
  shows "\<exists>s'. NodeCache_del unstringify (map Some ks) s = Some (Inr (), s')
           \<and> data s' = filter (\<lambda>p. fst p \<notin> set ks) (data s)
           \<and> clock s' = clock s \<and> m_ttl s' = m_ttl s"
  using assms
proof (induction ks arbitrary: s)
  case Nil
  then show ?case by (simp add: return_io_def)
next
  case (Cons k ks)
  from NodeCache_del_key_ok[OF Cons.prems, of k] obtain s1 where
    s1: "NodeCache_del_key unstringify k s = Some (Inr (), s1)"
        "data s1 = obj_delete (data s) k" "clock s1 = clock s" "m_ttl s1 = m_ttl s"
    by auto
  have "store_ok s1"
    using Cons.prems s1(2) unfolding obj_delete_def by (rule store_ok_filter)
  from Cons.IH[OF this] obtain s' where
    s': "NodeCache_del unstringify (map Some ks) s1 = Some (Inr (), s')"
        "data s' = filter (\<lambda>p. fst p \<notin> set ks) (data s1)"
        "clock s' = clock s1" "m_ttl s' = m_ttl s1"
    by auto
  have "filter (\<lambda>p. fst p \<notin> set ks) (obj_delete (data s) k)
          = filter (\<lambda>p. fst p \<notin> set (k # ks)) (data s)"
    by (auto simp: obj_delete_def intro: filter_cong)
  with s1 s' show ?case
    by (simp add: bind_io_Inr)
qed

lemma NodeCache_check_ok:
  assumes "store_ok s" "map_of (data s) k = Some e"
  shows "\<exists>s'. NodeCache_check unstringify k e s = Some (Inr (\<not> expired s e), s')
           \<and> data s' = (if expired s e then obj_delete (data s) k else data s)
           \<and> clock s' = clock s \<and> m_ttl s' = m_ttl s"
proof (cases "expired s e")
  case False
  then show ?thesis by (simp add: NodeCache_check_def return_io_def)
next
  case True
  from store_ok_lookup[OF assms] obtain t where t: "is_token k" "entry_v e = Some t" "is_token t"
    by auto
  from NodeCache_del_ok[OF assms(1), of "[k]"] obtain s1 where
    s1: "NodeCache_del unstringify [Some k] s = Some (Inr (), s1)"
        "data s1 = filter (\<lambda>p. fst p \<notin> set [k]) (data s)" "clock s1 = clock s" "m_ttl s1 = m_ttl s"
    by auto
  with True t show ?thesis
    by (simp add: NodeCache_check_def bind_io_Inr forward_unstringify return_io_def obj_delete_def)
qed

lemma obj_put_keys: "fst ` set (obj_put ps k v) = insert k (fst ` set ps)"
proof (induction ps)
  case Nil
  then show ?case by simp
next
  case (Cons p ps)
  obtain k' v' where p: "p = (k', v')" by (cases p)
  from Cons p show ?case by (cases "k' = k") auto
qed

lemma obj_put_distinct: "distinct (map fst ps) \<Longrightarrow> distinct (map fst (obj_put ps k v))"
  by (induction ps) (auto simp: obj_put_keys)

lemma map_of_obj_put: "map_of (obj_put ps k v) k' = (if k' = k then Some v else map_of ps k')"
  by (induction ps) auto

lemma store_ok_obj_put:
  assumes "store_ok s" "is_token k" "is_token t"
  shows "store_ok (s\<lparr>data := obj_put (data s) k \<lparr>entry_t = x, entry_v = Some t\<rparr>\<rparr>)"
proof -
  have "p \<in> set (obj_put ps k v) \<Longrightarrow> p = (k, v) \<or> p \<in> set ps" for p ps and v :: entry
    by (induction ps) (auto split: if_splits)
  with assms show ?thesis
    by (fastforce simp: store_ok_def obj_put_distinct)
qed

section \<open>Every operation of the reference variant returns\<close>

lemma forward_total: "forward unstringify ev k v s \<noteq> None"
  by (simp add: forward_def io_defs unstringify_def split: sum.splits)

lemma NodeCache_del_key_total: "NodeCache_del_key unstringify k s \<noteq> None"
  unfolding NodeCache_del_key_def
  by (cases "map_of (data s) k")
     (simp_all add: return_io_def bind_io_total modify_data_def forward_total)

lemma NodeCache_del_total: "NodeCache_del unstringify ks s \<noteq> None"
proof (induction ks arbitrary: s)
  case Nil
  then show ?case by (simp add: return_io_def)
next
  case (Cons k ks)
  then show ?case
    by (cases k) (simp_all add: throw_io_def bind_io_total NodeCache_del_key_total)
qed

lemma NodeCache_check_total: "NodeCache_check unstringify k e s \<noteq> None"
proof (cases "expired s e")
  case True
  have "bind_io (NodeCache_del unstringify [Some k]) (\<lambda>_.
          bind_io (forward unstringify EvExpired k (entry_v e)) (\<lambda>_. return_io False)) s \<noteq> None"
    by (intro bind_io_total NodeCache_del_total forward_total) (simp add: return_io_def)
  with True show ?thesis by (simp add: NodeCache_check_def)
next
  case False
  then show ?thesis by (simp add: NodeCache_check_def return_io_def)
qed

lemma NodeCache_get_total: "NodeCache_get unstringify k s \<noteq> None"
  unfolding NodeCache_get_def
  by (cases k; cases "map_of (data s) (the k)")
     (simp_all add: return_io_def throw_io_def bind_io_total NodeCache_check_total)

lemma get_total: "get unstringify key s \<noteq> None"
  unfolding get_def
  by (intro bind_io_total)
     (simp_all add: lift_io_def NodeCache_get_total throw_io_def pure_io_def unstringify_def)

section \<open>Reading one key\<close>

lemma NodeCache_check_live [simp]:
  "\<not> expired s e \<Longrightarrow> NodeCache_check unstr k e s = Some (Inr True, s)"
  by (simp add: NodeCache_check_def return_io_def)

lemma NodeCache_check_expired:
  assumes "expired s e" "NodeCache_check unstr k e s = Some (Inr b, s')"
  shows "\<not> b"
proof -
  from assms have "bind_io (NodeCache_del unstr [Some k]) (\<lambda>_.
            bind_io (forward unstr EvExpired k (entry_v e)) (\<lambda>_.
            return_io False)) s = Some (Inr b, s')"
    by (simp add: NodeCache_check_def)
  then obtain s1 s2 where "return_io False s2 = Some (Inr b, s')"
    unfolding bind_io_eq_Inr by blast
  then show ?thesis by (simp add: return_io_def)
qed

lemma JSON_parse_empty: "JSON_parse [] = Inl SyntaxError"
  by (simp add: JSON_parse_def parse_value.simps skip_ws_def parse_number_def)

lemma get_live:
  assumes "stringify key = Inr (Some k)" "map_of (data s) k = Some e" "\<not> expired s e"
    "entry_v e = Some t" "t \<noteq> []"
  shows "get unstr key s = pure_io (unstr (Some t)) s"
  using assms
  by (simp add: get_def NodeCache_get_def bind_io_def return_io_def falsy_def lift_io_def)

lemma get_absent:
  assumes "stringify key = Inr (Some k)" "map_of (data s) k = None"
  shows "get unstr key s = Some (Inl KeyNotFound, s)"
  using assms
  by (simp add: get_def NodeCache_get_def io_defs falsy_def)

lemma get_expired:
  assumes "stringify key = Inr (Some k)" "map_of (data s) k = Some e" "expired s e"
  shows "get unstr key s \<noteq> Some (Inr v, s')"
proof
  assume "get unstr key s = Some (Inr v, s')"
  with assms(1) obtain x s1 where
    x: "NodeCache_get unstr (Some k) s = Some (Inr x, s1)"
       "(if falsy x then throw_io KeyNotFound else pure_io (unstr x)) s1 = Some (Inr v, s')"
    unfolding get_def by (auto simp: bind_io_eq_Inr lift_io_def)
  from x(1) assms(2) obtain b s2 where
    b: "NodeCache_check unstr k e s = Some (Inr b, s2)"
       "return_io (if b then entry_v e else None) s2 = Some (Inr x, s1)"
    unfolding NodeCache_get_def by (auto simp: bind_io_eq_Inr)
  from NodeCache_check_expired[OF assms(3) b(1)] b(2) have "x = None"
    by (simp add: return_io_def)
  with x(2) show False
    by (simp add: falsy_def throw_io_def)
qed

lemma get_succeeds_iff:
  "(\<exists>s'. get unstringify key s = Some (Inr v, s')) \<longleftrightarrow> live_value s key = Some v"
proof (cases "stringify key")
  case (Inl e)
  then show ?thesis
    by (simp add: get_def live_value_def io_defs)
next
  case (Inr r)
  show ?thesis
  proof (cases r)
    case None
    with Inr show ?thesis
      by (simp add: get_def live_value_def NodeCache_get_def io_defs)
  next
    case (Some k)
    show ?thesis
    proof (cases "map_of (data s) k")
      case None
      with Inr Some show ?thesis
        by (simp add: get_absent live_value_def live_entry_def)
    next
      case e: (Some e)
      show ?thesis
      proof (cases "expired s e")
        case True
        with Inr Some e show ?thesis
          by (simp add: get_expired live_value_def live_entry_def)
      next
        case False
        show ?thesis
        proof (cases "entry_v e")
          case None
          with Inr Some e False show ?thesis
            by (simp add: get_def NodeCache_get_def io_defs falsy_def
                  live_value_def live_entry_def)
        next
          case t: (Some t)
          show ?thesis
          proof (cases "t = []")
            case True
            with Inr Some e False t show ?thesis
              by (simp add: get_def NodeCache_get_def io_defs falsy_def
                    live_value_def live_entry_def JSON_parse_empty)
          next
            case nonempty: False
            from get_live[OF _ e False t nonempty, of key unstringify] Inr Some
            have "get unstringify key s = Some (JSON_parse t, s)"
              by (simp add: pure_io_def unstringify_def ToString_def)
            with Inr Some e False t show ?thesis
              by (auto simp: live_value_def live_entry_def split: sum.splits)
          qed
        qed
      qed
    qed
  qed
qed


section \<open>Reading and deleting many keys\<close>

lemma map_of_filter_distinct:
  "distinct (map fst xs) \<Longrightarrow>
     map_of (filter P xs) k
       = (case map_of xs k of None \<Rightarrow> None | Some e \<Rightarrow> if P (k, e) then Some e else None)"
proof (induction xs)
  case Nil
  then show ?case by simp
next
  case (Cons x xs)
  obtain k' e' where x: "x = (k', e')" by (cases x)
  show ?case
  proof (cases "k' = k")
    case True
    with Cons.prems x have "map_of xs k = None"
      by (simp add: map_of_eq_None_iff)
    with Cons x True show ?thesis by simp
  next
    case False
    with Cons x show ?thesis by simp
  qed
qed

lemma live_entry_purge:
  assumes "distinct (map fst (data s))" "data s' = purge s K" "clock s' = clock s"
  shows "live_entry s' k = live_entry s k"
  using assms
  by (auto simp: live_entry_def purge_def map_of_filter_distinct expired_def split: option.splits)

lemma purge_purge:
  assumes "data s1 = purge s K1" "clock s1 = clock s"
  shows "purge s1 K2 = purge s (K1 \<union> K2)"
  using assms by (auto simp: purge_def expired_def intro: filter_cong)

lemma purge_single:
  assumes "distinct (map fst (data s))" "map_of (data s) k = Some e"
  shows "purge s {k} = (if expired s e then obj_delete (data s) k else data s)"
proof -
  have eq: "snd p = e" if "p \<in> set (data s)" "fst p = k" for p
  proof -
    from that have "map_of (data s) k = Some (snd p)"
      using assms(1) by (cases p) (auto intro: map_of_is_SomeI)
    with assms(2) show ?thesis by simp
  qed
  show ?thesis
  proof (cases "expired s e")
    case True
    have "filter (\<lambda>p. \<not> (fst p \<in> {k} \<and> expired s (snd p))) (data s)
            = filter (\<lambda>p. fst p \<noteq> k) (data s)"
      using eq True by (intro filter_cong) auto
    with True show ?thesis by (simp add: purge_def obj_delete_def)
  next
    case False
    have "filter (\<lambda>p. \<not> (fst p \<in> {k} \<and> expired s (snd p))) (data s) = data s"
      using eq False by (intro filter_True) auto
    with False show ?thesis by (simp add: purge_def)
  qed
qed

lemma purge_absent:
  assumes "map_of (data s) k = None"
  shows "purge s {k} = data s"
proof -
  have "fst p \<noteq> k" if "p \<in> set (data s)" for p
    using assms that by (auto simp: map_of_eq_None_iff)
  then show ?thesis
    unfolding purge_def by (intro filter_True) auto
qed

lemma store_ok_distinct: "store_ok s \<Longrightarrow> distinct (map fst (data s))"
  by (simp add: store_ok_def)

lemma NodeCache_mget_loop_ok:
  assumes "store_ok s"
  shows "\<exists>s'. NodeCache_mget_loop unstringify (map Some ks) oRet s
                 = Some (Inr (foldl (collect s) oRet ks), s')
           \<and> data s' = purge s (set ks) \<and> clock s' = clock s \<and> m_ttl s' = m_ttl s"
  using assms
proof (induction ks arbitrary: s oRet)
  case Nil
  then show ?case by (simp add: return_io_def purge_def)
next
  case (Cons k ks)
  note d = store_ok_distinct[OF Cons.prems]
  have step: "\<exists>s1. (case map_of (data s) k of
                 None \<Rightarrow> return_io oRet s
               | Some e \<Rightarrow>
                   bind_io (NodeCache_check unstringify k e)
                     (\<lambda>valid. return_io (if valid then obj_put oRet k (entry_v e) else oRet)) s)
             = Some (Inr (collect s oRet k), s1)
           \<and> data s1 = purge s {k} \<and> clock s1 = clock s \<and> m_ttl s1 = m_ttl s"
  proof (cases "map_of (data s) k")
    case None
    then show ?thesis
      by (simp add: return_io_def collect_def live_entry_def purge_absent)
  next
    case (Some e)
    from NodeCache_check_ok[OF Cons.prems Some] obtain s1 where
      "NodeCache_check unstringify k e s = Some (Inr (\<not> expired s e), s1)"
      "data s1 = (if expired s e then obj_delete (data s) k else data s)"
      "clock s1 = clock s" "m_ttl s1 = m_ttl s"
      by auto
    with Some show ?thesis
      by (simp add: bind_io_Inr return_io_def collect_def live_entry_def purge_single[OF d Some])
  qed
  then obtain s1 where
    s1: "(case map_of (data s) k of
                 None \<Rightarrow> return_io oRet s
               | Some e \<Rightarrow>
                   bind_io (NodeCache_check unstringify k e)
                     (\<lambda>valid. return_io (if valid then obj_put oRet k (entry_v e) else oRet)) s)
             = Some (Inr (collect s oRet k), s1)"
        "data s1 = purge s {k}" "clock s1 = clock s" "m_ttl s1 = m_ttl s"
    by blast
  have ok1: "store_ok s1"
    using Cons.prems s1(2) unfolding purge_def by (rule store_ok_filter)
  from Cons.IH[OF ok1, of "collect s oRet k"] obtain s' where
    s': "NodeCache_mget_loop unstringify (map Some ks) (collect s oRet k) s1
           = Some (Inr (foldl (collect s1) (collect s oRet k) ks), s')"
        "data s' = purge s1 (set ks)" "clock s' = clock s1" "m_ttl s' = m_ttl s1"
    by blast
  have same: "collect s1 = collect s"
    using live_entry_purge[OF d s1(2) s1(3)] by (simp add: collect_def fun_eq_iff)
  have "purge s1 (set ks) = purge s (set (k # ks))"
    using purge_purge[OF s1(2) s1(3), of "set ks"] by simp
  with s1 s' same show ?case
    by (simp add: bind_io_Inr)
qed

lemma collect_distinct: "distinct (map fst oRet) \<Longrightarrow> distinct (map fst (foldl (collect s) oRet ks))"
  by (induction ks arbitrary: oRet) (auto simp: collect_def obj_put_distinct split: option.splits)

lemma collect_map_of:
  "map_of (foldl (collect s) oRet ks) k
     = (if k \<in> set ks \<and> live_entry s k \<noteq> None
        then map_option entry_v (live_entry s k) else map_of oRet k)"
proof (induction ks arbitrary: oRet)
  case Nil
  then show ?case by simp
next
  case (Cons a ks)
  show ?case
    by (simp add: Cons.IH) (auto simp: collect_def map_of_obj_put split: option.splits)
qed

lemma Map_set_fresh: "k \<notin> fst ` set m \<Longrightarrow> Map_set m k v = m @ [(k, v)]"
  by (induction m) auto

lemma mget_loop_ok:
  assumes "distinct (map fst (xs @ ys))"
    and "\<forall>p \<in> set (xs @ ys). is_token (fst p) \<and> (\<exists>t. snd p = Some t \<and> is_token t)"
  shows "mget_loop unstringify (xs @ ys) (map fst ys) (map decode_pair xs)
           = Some (Inr (map decode_pair (xs @ ys)))"
  using assms
proof (induction ys arbitrary: xs)
  case Nil
  then show ?case by simp
next
  case (Cons y ys)
  obtain k t where y: "y = (k, Some t)" "is_token k" "is_token t"
    using Cons.prems(2) by (cases y) auto
  have look: "map_of (xs @ y # ys) k = Some (Some t)"
    using Cons.prems(1) y(1) by (intro map_of_is_SomeI) auto
  have "decoded k \<notin> fst ` set (map decode_pair xs)"
  proof
    assume "decoded k \<in> fst ` set (map decode_pair xs)"
    then obtain p where p: "p \<in> set xs" "decoded (fst p) = decoded k"
      by (auto simp: decode_pair_def)
    with Cons.prems(2) have "is_token (fst p)" by auto
    from decoded_inj[OF this y(2) p(2)] p(1) Cons.prems(1) y(1) show False
      by (auto simp: image_iff)
  qed
  then have fresh: "Map_set (map decode_pair xs) (decoded k) (decoded t)
                      = map decode_pair (xs @ [y])"
    by (simp add: Map_set_fresh decode_pair_def y(1) ToString_def)
  from Cons.IH[of "xs @ [y]"] Cons.prems
  have "mget_loop unstringify (xs @ y # ys) (map fst ys) (map decode_pair (xs @ [y]))
          = Some (Inr (map decode_pair (xs @ y # ys)))"
    by simp
  with look fresh y is_tokenD(4)[OF y(3)] show ?case
    by (simp add: falsy_def unstringify_token)
qed

lemma map_stringify_json:
  "\<forall>key \<in> set ks. json_value key \<Longrightarrow> map_stringify ks = Inr (map Some (map token_of ks))"
  by (induction ks) (simp_all add: token_of_json(1))

lemma live_entry_lookup: "live_entry s k = Some e \<Longrightarrow> map_of (data s) k = Some e"
  by (auto simp: live_entry_def split: option.splits if_splits)

lemma mget_ok:
  assumes "store_ok s" "\<forall>key \<in> set ks. json_value key"
  shows "\<exists>m s'. mget unstringify ks s = Some (Inr m, s')
           \<and> distinct (map fst m)
           \<and> set m = {(key, v). key \<in> set ks \<and> live_value s key = Some v}
           \<and> data s' = purge s (token_of ` set ks) \<and> clock s' = clock s \<and> m_ttl s' = m_ttl s"
proof -
  define toks where "toks = map token_of ks"
  define dat where "dat = foldl (collect s) [] toks"
  from NodeCache_mget_loop_ok[OF assms(1), of toks "[]"] obtain s' where
    s': "NodeCache_mget unstringify (map Some toks) s = Some (Inr dat, s')"
        "data s' = purge s (set toks)" "clock s' = clock s" "m_ttl s' = m_ttl s"
    by (auto simp: NodeCache_mget_def dat_def)
  have dist: "distinct (map fst dat)"
    unfolding dat_def by (rule collect_distinct) simp
  have look: "map_of dat k
                = (if k \<in> set toks \<and> live_entry s k \<noteq> None
                   then map_option entry_v (live_entry s k) else None)" for k
    unfolding dat_def by (simp add: collect_map_of)
  have member: "k \<in> set toks \<and> (\<exists>e t. live_entry s k = Some e \<and> entry_v e = Some t
                   \<and> r = Some t \<and> is_token k \<and> is_token t)"
    if "(k, r) \<in> set dat" for k r
  proof -
    from that dist have "map_of dat k = Some r" by (intro map_of_is_SomeI)
    with look[of k] obtain e where e: "k \<in> set toks" "live_entry s k = Some e" "r = entry_v e"
      by (auto split: if_splits)
    from store_ok_lookup[OF assms(1) live_entry_lookup[OF e(2)]] e show ?thesis by auto
  qed
  have toks_ok: "\<forall>p \<in> set ([] @ dat). is_token (fst p) \<and> (\<exists>t. snd p = Some t \<and> is_token t)"
    using member by fastforce
  from mget_loop_ok[of "[]" dat] dist toks_ok
  have loop: "mget_loop unstringify dat (map fst dat) [] = Some (Inr (map decode_pair dat))"
    by simp
  define m where "m = map decode_pair dat"
  have run: "mget unstringify ks s = Some (Inr m, s')"
    using map_stringify_json[OF assms(2)] s'(1) loop
    by (simp add: mget_def bind_io_Inr pure_io_def toks_def m_def)
  have inj: "inj_on decoded (set (map fst dat))"
  proof (rule inj_onI)
    fix a b assume "a \<in> set (map fst dat)" "b \<in> set (map fst dat)" "decoded a = decoded b"
    then obtain ra rb where "(a, ra) \<in> set dat" "(b, rb) \<in> set dat" "decoded a = decoded b"
      by auto
    with member[of a ra] member[of b rb] show "a = b"
      by (auto intro: decoded_inj)
  qed
  have "distinct (map decoded (map fst dat))"
    unfolding distinct_map[of decoded "map fst dat"] by (rule conjI[OF dist inj])
  moreover have "map fst m = map decoded (map fst dat)"
    by (simp add: m_def decode_pair_def comp_def)
  ultimately have dm: "distinct (map fst m)" by simp
  have sub1: "(key, v) \<in> set m \<Longrightarrow> key \<in> set ks \<and> live_value s key = Some v" for key v
  proof -
    assume "(key, v) \<in> set m"
    then obtain k r where kr: "(k, r) \<in> set dat" "key = decoded k" "v = decoded (ToString r)"
      by (auto simp: m_def decode_pair_def)
    from member[OF kr(1)] obtain e t where
      e: "k \<in> set toks" "live_entry s k = Some e" "entry_v e = Some t" "r = Some t" "is_token t"
      by auto
    from e(1) obtain key' where key': "key' \<in> set ks" "k = token_of key'"
      by (auto simp: toks_def)
    with assms(2) have jv: "json_value key'" by simp
    from token_of_json[OF jv] key'(2) kr(2) have "key = key'" by simp
    moreover have "live_value s key' = Some (decoded t)"
      using token_of_json(1)[OF jv] key'(2) e is_tokenD(3)[OF e(5)]
      by (simp add: live_value_def)
    ultimately show ?thesis using key'(1) kr(3) e(4) by (simp add: ToString_def)
  qed
  have sub2: "key \<in> set ks \<Longrightarrow> live_value s key = Some v \<Longrightarrow> (key, v) \<in> set m" for key v
  proof -
    assume key: "key \<in> set ks" and lv: "live_value s key = Some v"
    with assms(2) have jv: "json_value key" by simp
    from lv token_of_json(1)[OF jv] obtain e t where
      e: "live_entry s (token_of key) = Some e" "entry_v e = Some t" "JSON_parse t = Inr v"
      by (auto simp: live_value_def split: option.splits sum.splits)
    from key have "token_of key \<in> set toks" by (simp add: toks_def)
    with look[of "token_of key"] e have "map_of dat (token_of key) = Some (Some t)" by simp
    then have "(token_of key, Some t) \<in> set dat" by (rule map_of_SomeD)
    then have "decode_pair (token_of key, Some t) \<in> set m" by (simp add: m_def)
    with e(3) token_of_json(5)[OF jv] show ?thesis
      by (simp add: decode_pair_def decoded_def ToString_def)
  qed
  have "set m = {(key, v). key \<in> set ks \<and> live_value s key = Some v}"
    using sub1 sub2 by auto
  with run dm s'(2,3,4) show ?thesis
    by (auto simp: toks_def)
qed




lemma mdel_ok:
  assumes "store_ok s" "\<forall>key \<in> set ks. json_value key"
  shows "\<exists>s'. mdel unstringify ks s = Some (Inr (), s')
           \<and> data s' = filter (\<lambda>p. fst p \<notin> token_of ` set ks) (data s)
           \<and> clock s' = clock s"
  using NodeCache_del_ok[OF assms(1), of "map token_of ks"] map_stringify_json[OF assms(2)]
  by (auto simp: mdel_def)




section \<open>Well-formedness is kept\<close>

text \<open>
  A store without entries is well formed, and the operations keep a store well formed when
  they are given keys and values of supported shapes.  \<open>set_entry\<close> then always returns,
  whatever the time to live.
\<close>

lemma store_ok_update:
  "store_ok s \<Longrightarrow> data s' = data s \<Longrightarrow> store_ok s'"
  by (simp add: store_ok_def)

lemma store_ok_no_entries: "data s = [] \<Longrightarrow> store_ok s"
  by (simp add: store_ok_def)

lemma set_entry_store_ok:
  assumes "store_ok s" "json_value key" "json_value val"
  shows "\<exists>s'. set_entry unstringify key val ttl s = Some (Inr (), s') \<and> store_ok s'
           \<and> clock s' = clock s \<and> m_ttl s' = m_ttl s"
proof -
  define k where "k = token_of key"
  define t where "t = token_of val"
  note kf = token_of_json[OF assms(2), folded k_def]
  note tf = token_of_json[OF assms(3), folded t_def]
  define e1 where "e1 = NodeCache_wrap s (Some t) (m_ttl s)"
  define sa where "sa = s\<lparr>data := obj_put (data s) k e1,
                          emitted := emitted s @ [EvSet key val]\<rparr>"
  define x where "x = (case ttl of None \<Rightarrow> m_ttl s | Some y \<Rightarrow> y)"
  define x' where "x' = (if x = 0 then m_ttl sa else x)"
  have set1: "NodeCache_set unstringify (Some k) (Some t) s = Some (Inr (), sa)"
    using forward_unstringify[OF kf(4) tf(4)] kf(5) tf(5)
    by (simp add: NodeCache_set_def bind_io_def modify_data_def sa_def e1_def)
  have "store_ok (s\<lparr>data := obj_put (data s) k e1\<rparr>)"
    unfolding e1_def NodeCache_wrap_def using assms(1) kf(4) tf(4) by (rule store_ok_obj_put)
  then have oka: "store_ok sa"
    by (rule store_ok_update) (simp add: sa_def)
  have look: "map_of (data sa) k = Some e1"
    by (simp add: sa_def map_of_obj_put)
  have v1: "entry_v e1 = Some t"
    by (simp add: e1_def NodeCache_wrap_def)
  from NodeCache_check_ok[OF oka look] obtain sb where
    sb: "NodeCache_check unstringify k e1 sa = Some (Inr (\<not> expired sa e1), sb)"
        "data sb = (if expired sa e1 then obj_delete (data sa) k else data sa)"
        "clock sb = clock sa" "m_ttl sb = m_ttl sa"
    by blast
  have okb: "store_ok sb"
  proof (cases "expired sa e1")
    case True
    with sb(2) have "data sb = filter (\<lambda>p. fst p \<noteq> k) (data sa)"
      by (simp add: obj_delete_def)
    with oka show ?thesis by (rule store_ok_filter)
  next
    case False
    with sb(2) oka show ?thesis by (simp add: store_ok_update)
  qed
  have "\<exists>s'. NodeCache_ttl unstringify (Some k) x sa = Some (Inr (\<not> expired sa e1), s')
          \<and> store_ok s' \<and> clock s' = clock sa \<and> m_ttl s' = m_ttl sa"
  proof (cases "expired sa e1")
    case True
    with sb(1) kf(2) look have "NodeCache_ttl unstringify (Some k) x sa = Some (Inr False, sb)"
      by (simp add: NodeCache_ttl_def Let_def bind_io_def return_io_def)
    with True sb(3,4) okb show ?thesis by simp
  next
    case live: False
    show ?thesis
    proof (cases "0 \<le> x'")
      case True
      define sc where "sc = sb\<lparr>data := obj_put (data sb) k (NodeCache_wrap sb (Some t) x')\<rparr>"
      have "store_ok sc"
        unfolding sc_def NodeCache_wrap_def using okb kf(4) tf(4) by (rule store_ok_obj_put)
      moreover from True live sb(1) kf(2) look v1
      have "NodeCache_ttl unstringify (Some k) x sa = Some (Inr True, sc)"
        by (simp add: NodeCache_ttl_def Let_def bind_io_def return_io_def modify_data_def sc_def
              x'_def split: if_splits)
      moreover have "clock sc = clock sa" "m_ttl sc = m_ttl sa"
        using sb(3,4) by (simp_all add: sc_def)
      ultimately show ?thesis using live by simp
    next
      case False
      from NodeCache_del_ok[OF okb, of "[k]"] obtain sc where
        sc: "NodeCache_del unstringify [Some k] sb = Some (Inr (), sc)"
            "data sc = filter (\<lambda>p. fst p \<notin> set [k]) (data sb)"
            "clock sc = clock sb" "m_ttl sc = m_ttl sb"
        by auto
      from okb sc(2) have "store_ok sc" by (rule store_ok_filter)
      moreover from False live sb(1) sc(1) kf(2) look
      have "NodeCache_ttl unstringify (Some k) x sa = Some (Inr True, sc)"
        by (simp add: NodeCache_ttl_def Let_def bind_io_def return_io_def x'_def
              del: NodeCache_del.simps split: if_splits)
      ultimately show ?thesis using live sc(3,4) sb(3,4) by simp
    qed
  qed
  then obtain s' where
    s': "NodeCache_ttl unstringify (Some k) x sa = Some (Inr (\<not> expired sa e1), s')"
        "store_ok s'" "clock s' = clock sa" "m_ttl s' = m_ttl sa"
    by blast
  have "set_entry unstringify key val ttl s = Some (Inr (), s')"
    using kf(1) tf(1) set1 s'(1)
    by (simp add: set_entry_def bind_io_Inr return_io_def x_def)
  with s' show ?thesis
    by (auto simp: sa_def)
qed

lemma flush_store_ok: "\<exists>s'. flush s = Some (Inr (), s') \<and> store_ok s'"
  by (simp add: flush_def NodeCache_flushAll_def io_defs store_ok_def)

lemma get_store_ok:
  assumes "store_ok s" "json_value key" "get unstringify key s = Some (r, s')"
  shows "store_ok s'"
proof -
  define k where "k = token_of key"
  note kf = token_of_json[OF assms(2), folded k_def]
  show ?thesis
  proof (cases "map_of (data s) k")
    case None
    with kf(1) assms(3) have "s' = s"
      by (simp add: get_absent)
    with assms(1) show ?thesis by simp
  next
    case (Some e)
    from NodeCache_check_ok[OF assms(1) Some] obtain sb where
      sb: "NodeCache_check unstringify k e s = Some (Inr (\<not> expired s e), sb)"
          "data sb = (if expired s e then obj_delete (data s) k else data s)"
      by blast
    have okb: "store_ok sb"
    proof (cases "expired s e")
      case True
      with sb(2) have "data sb = filter (\<lambda>p. fst p \<noteq> k) (data s)"
        by (simp add: obj_delete_def)
      with assms(1) show ?thesis by (rule store_ok_filter)
    next
      case False
      with sb(2) assms(1) show ?thesis by (simp add: store_ok_update)
    qed
    from kf(1) Some sb(1) assms(3) have "s' = sb"
      by (auto simp: get_def NodeCache_get_def lift_io_def bind_io_def return_io_def throw_io_def
            pure_io_def unstringify_def split: if_splits)
    with okb show ?thesis by simp
  qed
qed

lemma mget_store_ok:
  assumes "store_ok s" "\<forall>key \<in> set ks. json_value key" "mget unstringify ks s = Some (r, s')"
  shows "store_ok s'"
proof -
  from mget_ok[OF assms(1,2)] assms(3) have "data s' = purge s (token_of ` set ks)"
    by auto
  with assms(1) show ?thesis
    unfolding purge_def by (rule store_ok_filter)
qed

lemma mdel_store_ok:
  assumes "store_ok s" "\<forall>key \<in> set ks. json_value key" "mdel unstringify ks s = Some (r, s')"
  shows "store_ok s'"
proof -
  from mdel_ok[OF assms(1,2)] assms(3)
  have "data s' = filter (\<lambda>p. fst p \<notin> token_of ` set ks) (data s)"
    by auto
  with assms(1) show ?thesis by (rule store_ok_filter)
qed

section \<open>The variant whose decoder calls itself\<close>

lemma unstringify_rec_None: "unstringify_rec str = None"
proof (cases "unstringify_rec str")
  case None
  then show ?thesis .
next
  case (Some y)
  have False
    by (rule unstringify_rec.raw_induct[where P = "\<lambda>_ _. False", OF _ Some]) blast
  then show ?thesis ..
qed

lemma forward_rec: "forward unstringify_rec ev k v s = None"
  by (simp add: forward_def io_defs unstringify_rec_None)

lemma NodeCache_del_key_rec:
  "map_of (data s) k = Some e \<Longrightarrow> NodeCache_del_key unstringify_rec k s = None"
  by (simp add: NodeCache_del_key_def bind_io_def modify_data_def forward_rec)

lemma NodeCache_check_rec:
  assumes "map_of (data s) k = Some e"
  shows "NodeCache_check unstringify_rec k e s = (if expired s e then None else Some (Inr True, s))"
  using assms
  by (simp add: NodeCache_check_def bind_io_None NodeCache_del_key_rec return_io_def)

lemma get_rec:
  assumes "stringify key = Inr (Some k)" "map_of (data s) k = Some e" "entry_v e = Some t" "t \<noteq> []"
  shows "get unstringify_rec key s = None"
proof (cases "expired s e")
  case True
  with assms(1,2) show ?thesis
    by (simp add: get_def lift_io_def NodeCache_get_def bind_io_def NodeCache_check_rec)
next
  case False
  from get_live[OF assms(1,2) False assms(3,4), of unstringify_rec] show ?thesis
    by (simp add: pure_io_def unstringify_rec_None)
qed

lemma keys_rec: "data s \<noteq> [] \<Longrightarrow> keys unstringify_rec s = None"
  by (cases "data s") (simp_all add: keys_def NodeCache_keys_def pure_io_def unstringify_rec_None)

lemma set_entry_rec:
  assumes "stringify key = Inr (Some k)" "stringify val = Inr tv"
  shows "set_entry unstringify_rec key val ttl s = None"
  using assms
  by (simp add: set_entry_def NodeCache_set_def bind_io_def lift_io_def modify_data_def forward_rec)

lemma collect_absent: "map_of (data s) k = None \<Longrightarrow> collect s oRet k = oRet"
  by (simp add: collect_def live_entry_def)

lemma collect_live:
  "map_of (data s) k = Some e \<Longrightarrow> \<not> expired s e \<Longrightarrow> collect s oRet k = obj_put oRet k (entry_v e)"
  by (simp add: collect_def live_entry_def)

lemma NodeCache_mget_loop_rec:
  "NodeCache_mget_loop unstringify_rec (map Some toks) oRet s
     = (if \<exists>k \<in> set toks. \<exists>e. map_of (data s) k = Some e \<and> expired s e then None
        else Some (Inr (foldl (collect s) oRet toks), s))"
proof (induction toks arbitrary: oRet)
  case Nil
  then show ?case by (simp add: return_io_def)
next
  case (Cons k toks)
  show ?case
  proof (cases "map_of (data s) k")
    case None
    then show ?thesis
      by (simp add: Cons.IH bind_io_def return_io_def collect_absent)
  next
    case (Some e)
    show ?thesis
    proof (cases "expired s e")
      case True
      with Some show ?thesis
        by (auto simp: bind_io_def NodeCache_check_rec)
    next
      case False
      with Some show ?thesis
        by (simp add: Cons.IH bind_io_def NodeCache_check_rec return_io_def collect_live)
    qed
  qed
qed

lemma mget_loop_rec:
  "\<exists>k \<in> set ks. \<exists>t. map_of dat k = Some (Some t) \<and> t \<noteq> []
     \<Longrightarrow> mget_loop unstringify_rec dat ks acc = None"
proof (induction ks)
  case Nil
  then show ?case by simp
next
  case (Cons k ks)
  show ?case
  proof (cases "map_of dat k")
    case None
    with Cons show ?thesis by auto
  next
    case (Some r)
    show ?thesis
    proof (cases "falsy r")
      case True
      with Some Cons show ?thesis by (auto simp: falsy_def)
    next
      case False
      with Some show ?thesis by (simp add: unstringify_rec_None)
    qed
  qed
qed

lemma mget_rec:
  assumes "map_stringify ks = Inr (map Some toks)"
    and "k \<in> set toks" "map_of (data s) k = Some e" "entry_v e = Some t" "t \<noteq> []"
  shows "mget unstringify_rec ks s = None"
proof (cases "\<exists>k \<in> set toks. \<exists>e. map_of (data s) k = Some e \<and> expired s e")
  case True
  then show ?thesis
    using assms(1)
    by (simp add: mget_def NodeCache_mget_def NodeCache_mget_loop_rec bind_io_def lift_io_def)
next
  case False
  define dat where "dat = foldl (collect s) [] toks"
  from False assms(2,3) have "live_entry s k = Some e"
    by (auto simp: live_entry_def)
  with assms(2,4) have "map_of dat k = Some (Some t)"
    by (simp add: dat_def collect_map_of)
  moreover from this have "k \<in> set (map fst dat)"
    by (auto dest: map_of_SomeD intro: rev_image_eqI)
  ultimately have "mget_loop unstringify_rec dat (map fst dat) [] = None"
    using assms(5) by (intro mget_loop_rec) blast
  with False assms(1) show ?thesis
    by (simp add: mget_def NodeCache_mget_def NodeCache_mget_loop_rec bind_io_def pure_io_def
          lift_io_def dat_def)
qed

section \<open>The example states\<close>

lemma example_tokens:
  \<open>token_of (JStr ''a'') = ''"a"''\<close>
  \<open>token_of (JStr ''b'') = ''"b"''\<close>
  \<open>token_of (JStr ''old'') = ''"old"''\<close>
  \<open>token_of (JObj [(''x'', JNum 1)]) = ''{"x":1}''\<close>
  \<open>token_of (JNum 2) = ''2''\<close>
  by code_simp+



lemma example_live_values:
  "live_value example_store (JStr ''a'') = Some (JObj [(''x'', JNum 1)])"
  "live_value example_store (JStr ''b'') = None"
  "live_value example_store (JStr ''old'') = None"
  "live_value example_store (JBigInt 7) = None"
  "live_value example_store JUndefined = None"
proof -
  have s: "stringify (JStr ''a'') = Inr (Some (token_of (JStr ''a'')))"
    "stringify (JStr ''b'') = Inr (Some (token_of (JStr ''b'')))"
    "stringify (JStr ''old'') = Inr (Some (token_of (JStr ''old'')))"
    by (simp_all add: token_of_json(1))
  have p: "JSON_parse (token_of (JObj [(''x'', JNum 1)])) = Inr (JObj [(''x'', JNum 1)])"
    by (simp add: token_of_json(3))
  show "live_value example_store (JStr ''a'') = Some (JObj [(''x'', JNum 1)])"
    using s(1) p
    by (simp add: live_value_def live_entry_def example_store_def expired_def example_tokens)
  show "live_value example_store (JStr ''b'') = None"
    using s(2)
    by (simp add: live_value_def live_entry_def example_store_def expired_def example_tokens)
  show "live_value example_store (JStr ''old'') = None"
    using s(3)
    by (simp add: live_value_def live_entry_def example_store_def expired_def example_tokens)
  show "live_value example_store (JBigInt 7) = None"
    by (simp add: live_value_def stringify_def)
  show "live_value example_store JUndefined = None"
    by (simp add: live_value_def stringify_def)
qed

section \<open>The claims\<close>

text \<open>
  The supported shapes of the specification are read as the values that satisfy
  \<open>json_value\<close>.  The reference variant of the class is the one with the decoder
  \<open>unstringify\<close>.
\<close>



text \<open>
  The default time to live matters because \<open>set_entry\<close> first writes the entry with it
  and only then sets the time to live it was given: with a negative default the store
  finds the new entry expired at that point and deletes it.
\<close>

lemma set_then_get_negative_default:
  "set_entry unstringify (JStr ''a'') (JNum 2) (Some 60) misconfigured_store
     = Some (Inr (), misconfigured_store\<lparr>emitted :=
         [EvSet (JStr ''a'') (JNum 2), EvDel (JStr ''a'') (JNum 2), EvExpired (JStr ''a'') (JNum 2)]\<rparr>)
   \<and> get unstringify (JStr ''a'')
         (misconfigured_store\<lparr>emitted :=
            [EvSet (JStr ''a'') (JNum 2), EvDel (JStr ''a'') (JNum 2), EvExpired (JStr ''a'') (JNum 2)]\<rparr>)
       = Some (Inl KeyNotFound, misconfigured_store\<lparr>emitted :=
            [EvSet (JStr ''a'') (JNum 2), EvDel (JStr ''a'') (JNum 2), EvExpired (JStr ''a'') (JNum 2)]\<rparr>)"
proof -
  have s: "stringify (JStr ''a'') = Inr (Some (token_of (JStr ''a'')))"
    "stringify (JNum 2) = Inr (Some (token_of (JNum 2)))"
    by (simp_all add: token_of_json(1))
  have d: "decoded (token_of (JStr ''a'')) = JStr ''a''" "decoded (token_of (JNum 2)) = JNum 2"
    by (simp_all add: token_of_json(5))
  have u: "unstringify (Some (token_of (JStr ''a''))) = Some (Inr (JStr ''a''))"
    "unstringify (Some (token_of (JNum 2))) = Some (Inr (JNum 2))"
    using unstringify_token[OF token_of_json(4), of "JStr ''a''"]
      unstringify_token[OF token_of_json(4), of "JNum 2"] d by simp_all
  have ne: "token_of (JStr ''a'') \<noteq> []"
    by (simp add: token_of_json(2))
  show ?thesis
    using ne
    by (simp add: set_entry_def get_def NodeCache_set_def NodeCache_ttl_def NodeCache_check_def
          NodeCache_get_def NodeCache_del_key_def forward_def io_defs s u expired_def
          NodeCache_wrap_def obj_delete_def misconfigured_store_def falsy_def)
qed






text \<open>
  Claim C4.  In every state and for every key, \<open>exists\<close> returns a boolean and never
  throws, and the boolean is true exactly when \<open>get\<close> on the same state returns a value;
  that is, exactly when the key encodes to a token whose entry is present, has not expired
  and holds a text that decodes.  So \<open>exists\<close> returns false when encoding the key fails,
  when the key is absent and when its entry has expired.
\<close>

theorem exists_iff_get:
  "\<exists>b s'. exists unstringify key s = Some (Inr b, s')
      \<and> (b \<longleftrightarrow> (\<exists>v. get unstringify key s = Some (Inr v, s')))
      \<and> (b \<longleftrightarrow> live_value s key \<noteq> None)"
proof -
  from get_total[of key s] obtain r s' where g: "get unstringify key s = Some (r, s')"
    by (cases "get unstringify key s") auto
  show ?thesis
  proof (cases r)
    case (Inl e)
    with g have "live_value s key = None"
      using get_succeeds_iff[of key s] by (cases "live_value s key") auto
    with g Inl show ?thesis
      by (intro exI[of _ False] exI[of _ s']) (simp add: exists_def)
  next
    case (Inr v)
    with g have "live_value s key = Some v"
      using get_succeeds_iff[of key s v] by auto
    with g Inr show ?thesis
      by (intro exI[of _ True] exI[of _ s']) (auto simp: exists_def)
  qed
qed

theorem exists_iff_get_witness:
  "(\<exists>s'. exists unstringify (JStr ''a'') example_store = Some (Inr True, s'))
   \<and> (\<exists>s'. exists unstringify (JStr ''b'') example_store = Some (Inr False, s'))
   \<and> (\<exists>s'. exists unstringify (JStr ''old'') example_store = Some (Inr False, s'))
   \<and> (\<exists>s'. exists unstringify (JBigInt 7) example_store = Some (Inr False, s'))
   \<and> (\<exists>s'. exists unstringify JUndefined example_store = Some (Inr False, s'))"
  using exists_iff_get[of "JStr ''a''" example_store] exists_iff_get[of "JStr ''b''" example_store]
    exists_iff_get[of "JStr ''old''" example_store] exists_iff_get[of "JBigInt 7" example_store]
    exists_iff_get[of JUndefined example_store]
  by (auto simp: example_live_values)





text \<open>
  Claim C7.  In every state, whatever the number of entries, \<open>flush\<close> returns and leaves
  a state in which \<open>keys\<close> returns the empty sequence; it emits exactly one event, the
  \<open>flush\<close> event, which carries no payload.
\<close>

theorem flush_empties_keys:
  "flush s = Some (Inr (), s\<lparr>data := [], emitted := emitted s @ [EvFlush]\<rparr>)
   \<and> keys unstr (s\<lparr>data := [], emitted := emitted s @ [EvFlush]\<rparr>)
       = Some (Inr [], s\<lparr>data := [], emitted := emitted s @ [EvFlush]\<rparr>)"
  by (simp add: flush_def NodeCache_flushAll_def keys_def NodeCache_keys_def io_defs)




text \<open>
  Claim C9.  In the variant whose \<open>unstringify\<close> calls itself the decoder never returns,
  and neither does an operation that reaches it: the forwarding of a \<open>set\<close>, \<open>expired\<close> or
  \<open>del\<close> event; \<open>get\<close> on a key whose entry holds a non-empty text; \<open>keys\<close> and
  \<open>list\<close> on a store that is not empty; \<open>mget\<close> when one of the requested keys has an
  entry that holds a non-empty text; and \<open>set\<close> with a key and a value that encode, since
  its \<open>set\<close> event is forwarded.
\<close>

theorem unstringify_rec_never_returns:
  "unstringify_rec str = None
   \<and> forward unstringify_rec ev k v s = None
   \<and> (stringify key = Inr (Some k) \<and> map_of (data s) k = Some e \<and> entry_v e = Some t \<and> t \<noteq> []
        \<longrightarrow> get unstringify_rec key s = None)
   \<and> (data s \<noteq> [] \<longrightarrow> keys unstringify_rec s = None)
   \<and> (data s \<noteq> [] \<longrightarrow> list_entries unstringify_rec s = None)
   \<and> (map_stringify ks = Inr (map Some toks) \<and> k \<in> set toks \<and> map_of (data s) k = Some e
        \<and> entry_v e = Some t \<and> t \<noteq> []
        \<longrightarrow> mget unstringify_rec ks s = None)
   \<and> (stringify key = Inr (Some k) \<and> stringify val = Inr tv
        \<longrightarrow> set_entry unstringify_rec key val ttl s = None)"
  using unstringify_rec_None[of str] forward_rec[of ev k v s] get_rec[of key k s e t]
    keys_rec[of s] mget_rec[of ks toks k s e t] set_entry_rec[of key k val tv ttl s]
  by (auto simp: list_entries_def bind_io_None)

theorem unstringify_rec_never_returns_witness:
  \<open>unstringify_rec (Some ''1'') = None
   \<and> forward unstringify_rec EvDel ''"a"'' (Some ''1'') example_store = None
   \<and> get unstringify_rec (JStr ''a'') example_store = None
   \<and> keys unstringify_rec example_store = None
   \<and> list_entries unstringify_rec example_store = None
   \<and> mget unstringify_rec [JStr ''b'', JStr ''a''] example_store = None
   \<and> set_entry unstringify_rec (JStr ''b'') (JNum 2) None empty_store = None\<close>
proof -
  have s: \<open>stringify (JStr ''a'') = Inr (Some ''"a"'')\<close> \<open>stringify (JStr ''b'') = Inr (Some ''"b"'')\<close>
    \<open>stringify (JNum 2) = Inr (Some ''2'')\<close>
    by code_simp+
  have ms: \<open>map_stringify [JStr ''b'', JStr ''a''] = Inr (map Some [''"b"'', ''"a"''])\<close>
    by (simp add: s)
  have look: \<open>map_of (data example_store) ''"a"''
                = Some \<lparr>entry_t = 1300000, entry_v = Some ''{"x":1}''\<rparr>\<close>
    by (simp add: example_store_def)
  have ne: "data example_store \<noteq> []"
    by (simp add: example_store_def)
  note present = unstringify_rec_never_returns[where str = "Some ''1''" and ev = EvDel
      and k = \<open>''"a"''\<close> and v = "Some ''1''" and s = example_store and key = "JStr ''a''"
      and e = \<open>\<lparr>entry_t = 1300000, entry_v = Some ''{"x":1}''\<rparr>\<close> and t = \<open>''{"x":1}''\<close>
      and ks = "[JStr ''b'', JStr ''a'']" and toks = \<open>[''"b"'', ''"a"'']\<close>]
  note writing = unstringify_rec_never_returns[where key = "JStr ''b''" and k = \<open>''"b"''\<close>
      and val = "JNum 2" and tv = "Some ''2''" and ttl = None and s = empty_store]
  from present writing s ms look ne show ?thesis by simp
qed



end
